theory Spec2Isabelle
  imports Main "HOL-Library.Word"
begin

section \<open>The curl input stream of MPD (src/input_curl.c)\<close>

text \<open>
  A shallow embedding of \<^verbatim>\<open>input_curl.c\<close>. Bytes are \<open>char\<close> (8 bits), byte
  strings are \<open>string\<close>. The two intrusive lists of \<^verbatim>\<open>struct input_curl\<close> are HOL
  lists, head first. \<^verbatim>\<open>off_t\<close> values are \<open>int\<close> and \<^verbatim>\<open>size_t\<close> values are \<open>nat\<close>.
  Where a 64-bit value chosen by the peer or by the caller is added to an offset,
  the sum wraps as the 64-bit machine addition does: the Content-Length header is
  computed on \<open>64 word\<close> and read back as signed, and the target of a seek is
  computed by \<open>off_t_add\<close>. Every assertion of the source is a branch of the model
  (\<open>AssertionFailed\<close>). The request headers, the error text and the user agent
  play no part in reading and seeking and are left out.

  libcurl is outside the repository. Its multi handle is modelled as a script: the
  outcomes of the future calls of \<^verbatim>\<open>curl_multi_perform\<close>, of \<^verbatim>\<open>curl_multi_fdset\<close>
  with \<^verbatim>\<open>select\<close>, and of \<^verbatim>\<open>curl_easy_init\<close>, each consumed by the call it
  answers. A call that finds its script empty has no modelled answer
  (\<open>OutOfScript\<close>): the length of the script is the horizon up to which a run is
  followed.
\<close>

subsection \<open>Data\<close>

datatype fault = AssertionFailed | OutOfScript

record buffer =
  buf_size :: nat
  buf_consumed :: nat
  buf_data :: string

datatype curlmcode = CURLM_CALL_MULTI_PERFORM | CURLM_OK | CURLM_ERROR

datatype callback = HeaderLine string | BodyChunk string

datatype curlmsg = CURLMSG_DONE bool | CURLMSG_OTHER

record perform_result =
  pr_callbacks :: "callback list"
  pr_code :: curlmcode
  pr_msgs :: "curlmsg list"

text \<open>
  What one call of \<^verbatim>\<open>input_curl_select\<close> meets: \<^verbatim>\<open>curl_multi_fdset\<close> fails, or it
  succeeds and stores \<open>max_fd\<close> (-1 when libcurl has no descriptor to wait for), and
  \<^verbatim>\<open>select\<close> then returns \<open>ret\<close>: \<open>Select max_fd ret\<close>.
\<close>

datatype select_result = FdsetFailed | Select int int

datatype easy_init_result = EasyOk | EasyNull | AddHandleFailed | SetUrlFailed

record curlm =
  m_performs :: "perform_result list"
  m_selects :: "select_result list"
  m_inits :: "easy_init_result list"
  m_msgs :: "curlmsg list"
  m_starts :: nat

record input_curl =
  c_url :: string
  c_range :: "string option"
  c_easy :: bool
  c_multi :: curlm
  c_buffers :: "buffer list"
  c_buffered :: bool
  c_eof :: bool
  c_rewind :: "buffer list"

record input_stream =
  is_offset :: int
  is_size :: int
  is_seekable :: bool
  is_error :: int
  is_ready :: bool
  is_mime :: "string option"
  is_meta_name :: "string option"
  is_data :: input_curl

definition max_rewind_size :: int where
  "max_rewind_size = 64 * 1024"

definition SEEK_SET :: int where
  "SEEK_SET = 0"

definition SEEK_CUR :: int where
  "SEEK_CUR = 1"

definition SEEK_END :: int where
  "SEEK_END = 2"

subsection \<open>C library and GLib string functions\<close>

text \<open>
  \<^verbatim>\<open>g_ascii_isspace\<close> is true of space, tab, line feed, form feed and carriage
  return. A C string ends at its first NUL byte. \<^verbatim>\<open>strcasecmp\<close> compares after
  folding A-Z to lower case.
\<close>

definition g_ascii_isspace :: "char \<Rightarrow> bool" where
  "g_ascii_isspace ch =
     (ch = CHR '' '' \<or> ch = CHR 0x09 \<or> ch = CHR 0x0A \<or> ch = CHR 0x0C \<or> ch = CHR 0x0D)"

definition c_string :: "string \<Rightarrow> string" where
  "c_string bytes = takeWhile (\<lambda>ch. ch \<noteq> CHR 0x00) bytes"

definition ascii_tolower :: "char \<Rightarrow> char" where
  "ascii_tolower ch =
     (let n = (of_char ch :: nat) in if 65 \<le> n \<and> n \<le> 90 then char_of (n + 32) else ch)"

definition strcasecmp_eq :: "string \<Rightarrow> string \<Rightarrow> bool" where
  "strcasecmp_eq a b = (map ascii_tolower a = map ascii_tolower b)"

text \<open>
  \<^verbatim>\<open>g_ascii_strtoull (nptr, NULL, 10)\<close>, as GLib documents it (\<^verbatim>\<open>strtoull\<close> in the C
  locale): white space is skipped, one sign is accepted, then the longest run of
  decimal digits is read. No digit gives 0, a value above \<^verbatim>\<open>G_MAXUINT64\<close> gives
  \<^verbatim>\<open>G_MAXUINT64\<close>, and a minus sign negates the result modulo \<open>2 ^ 64\<close>.
\<close>

definition is_digit :: "char \<Rightarrow> bool" where
  "is_digit ch = (48 \<le> (of_char ch :: nat) \<and> (of_char ch :: nat) \<le> 57)"

definition digit_val :: "char \<Rightarrow> nat" where
  "digit_val ch = of_char ch - 48"

definition G_MAXUINT64 :: nat where
  "G_MAXUINT64 = 2 ^ 64 - 1"

definition strtoull_isspace :: "char \<Rightarrow> bool" where
  "strtoull_isspace ch = (g_ascii_isspace ch \<or> ch = CHR 0x0B)"

fun parse_digits :: "string \<Rightarrow> nat \<Rightarrow> bool \<Rightarrow> bool \<Rightarrow> nat \<times> bool \<times> bool" where
  "parse_digits [] ui64 overflow any = (ui64, overflow, any)"
| "parse_digits (ch # s) ui64 overflow any =
     (if is_digit ch then
        (if ui64 > G_MAXUINT64 div 10 \<or>
            (ui64 = G_MAXUINT64 div 10 \<and> digit_val ch > G_MAXUINT64 mod 10)
         then parse_digits s ui64 True True
         else parse_digits s (ui64 * 10 + digit_val ch) overflow True)
      else (ui64, overflow, any))"

definition g_parse_long_long :: "string \<Rightarrow> nat \<times> bool" where
  "g_parse_long_long nptr =
     (let s = dropWhile strtoull_isspace nptr;
          negative = (s \<noteq> [] \<and> hd s = CHR ''-'');
          s1 = (if s \<noteq> [] \<and> (hd s = CHR ''-'' \<or> hd s = CHR ''+'') then tl s else s)
      in case parse_digits s1 0 False False of
           (ui64, overflow, any) \<Rightarrow>
             if \<not> any then (0, False)
             else if overflow then (G_MAXUINT64, negative)
             else (ui64, negative))"

definition g_ascii_strtoull :: "string \<Rightarrow> 64 word" where
  "g_ascii_strtoull nptr =
     (case g_parse_long_long (c_string nptr) of
        (result, negative) \<Rightarrow> if negative then - (word_of_nat result) else word_of_nat result)"

subsection \<open>Callbacks invoked by libcurl\<close>

text \<open>
  \<^verbatim>\<open>input_curl_headerfunction\<close>: the argument is the \<open>size * nmemb\<close> bytes of one
  header line. \<open>header_value\<close> is the byte range \<open>[value, end)\<close> after both
  stripping loops and \<open>header_end\<close> is \<open>end - header\<close>.
\<close>

definition header_name :: "string \<Rightarrow> string" where
  "header_name header = c_string (takeWhile (\<lambda>ch. ch \<noteq> CHR '':'') header)"

definition header_value :: "string \<Rightarrow> string" where
  "header_value header =
     rev (dropWhile g_ascii_isspace (rev (dropWhile g_ascii_isspace
       (tl (dropWhile (\<lambda>ch. ch \<noteq> CHR '':'') header)))))"

definition header_end :: "string \<Rightarrow> nat" where
  "header_end header =
     (let name_len = length (takeWhile (\<lambda>ch. ch \<noteq> CHR '':'') header);
          after_colon = tl (dropWhile (\<lambda>ch. ch \<noteq> CHR '':'') header)
      in Suc name_len + length (takeWhile g_ascii_isspace after_colon)
           + length (header_value header))"

definition input_curl_headerfunction :: "string \<Rightarrow> input_stream \<Rightarrow> input_stream" where
  "input_curl_headerfunction header s =
     (if CHR '':'' \<notin> set header
         \<or> length (takeWhile (\<lambda>ch. ch \<noteq> CHR '':'') header) \<ge> 64
      then s
      else
        let name = header_name header; val = header_value header in
        if strcasecmp_eq name ''accept-ranges'' then s\<lparr>is_seekable := True\<rparr>
        else if strcasecmp_eq name ''content-length'' then
          (if header_end header \<ge> 64 then s
           else s\<lparr>is_size :=
                    sint ((word_of_int (is_offset s) :: 64 word) + g_ascii_strtoull val)\<rparr>)
        else if strcasecmp_eq name ''content-type'' then
          s\<lparr>is_mime := Some (c_string val)\<rparr>
        else if strcasecmp_eq name ''icy-name'' \<or> strcasecmp_eq name ''ice-name''
                \<or> strcasecmp_eq name ''x-audiocast-name'' then
          s\<lparr>is_meta_name := Some (c_string val)\<rparr>
        else s)"

text \<open>\<^verbatim>\<open>input_curl_writefunction\<close>: a body chunk becomes a new buffer at the tail.\<close>

definition input_curl_writefunction :: "string \<Rightarrow> input_stream \<Rightarrow> input_stream" where
  "input_curl_writefunction ptr s =
     (if length ptr = 0 then s
      else
        let buf = \<lparr>buf_size = length ptr, buf_consumed = 0, buf_data = ptr\<rparr>;
            c = is_data s
        in s\<lparr>is_ready := True,
             is_data := c\<lparr>c_buffers := c_buffers c @ [buf], c_buffered := True\<rparr>\<rparr>)"

fun run_callback :: "input_stream \<Rightarrow> callback \<Rightarrow> input_stream" where
  "run_callback s (HeaderLine h) = input_curl_headerfunction h s"
| "run_callback s (BodyChunk b) = input_curl_writefunction b s"

subsection \<open>The multi handle\<close>

abbreviation multi_of :: "input_stream \<Rightarrow> curlm" where
  "multi_of s \<equiv> c_multi (is_data s)"

abbreviation set_multi :: "curlm \<Rightarrow> input_stream \<Rightarrow> input_stream" where
  "set_multi m s \<equiv> s\<lparr>is_data := (is_data s)\<lparr>c_multi := m\<rparr>\<rparr>"

abbreviation set_eof :: "bool \<Rightarrow> input_stream \<Rightarrow> input_stream" where
  "set_eof b s \<equiv> s\<lparr>is_data := (is_data s)\<lparr>c_eof := b\<rparr>\<rparr>"

text \<open>
  \<^verbatim>\<open>curl_multi_perform\<close>: the next scripted outcome. Its callbacks run on the
  stream, in order, and its messages join the queue that
  \<^verbatim>\<open>curl_multi_info_read\<close> drains.
\<close>

definition curl_multi_perform :: "input_stream \<Rightarrow> fault + (curlmcode \<times> input_stream)" where
  "curl_multi_perform s =
     (case m_performs (multi_of s) of
        [] \<Rightarrow> Inl OutOfScript
      | r # rs \<Rightarrow>
          Inr (pr_code r,
               foldl run_callback
                 (set_multi ((multi_of s)\<lparr>m_performs := rs,
                                          m_msgs := m_msgs (multi_of s) @ pr_msgs r\<rparr>) s)
                 (pr_callbacks r)))"

text \<open>
  \<^verbatim>\<open>input_curl_select\<close>: -1 when \<^verbatim>\<open>curl_multi_fdset\<close> fails; else the assertion
  \<^verbatim>\<open>max_fd >= 0\<close>, and then what \<^verbatim>\<open>select\<close> returns after at most one second.
\<close>

definition input_curl_select :: "input_stream \<Rightarrow> fault + (int \<times> input_stream)" where
  "input_curl_select s =
     (case m_selects (multi_of s) of
        [] \<Rightarrow> Inl OutOfScript
      | r # rs \<Rightarrow>
          (case r of
             FdsetFailed \<Rightarrow> Inr (- 1, set_multi ((multi_of s)\<lparr>m_selects := rs\<rparr>) s)
           | Select max_fd ret \<Rightarrow>
               if \<not> max_fd \<ge> 0 then Inl AssertionFailed
               else Inr (ret, set_multi ((multi_of s)\<lparr>m_selects := rs\<rparr>) s)))"

function input_curl_multi_info_read :: "input_stream \<Rightarrow> bool \<times> input_stream" where
  "input_curl_multi_info_read s =
     (case m_msgs (multi_of s) of
        [] \<Rightarrow> (True, s)
      | msg # q \<Rightarrow>
          (case msg of
             CURLMSG_DONE ok \<Rightarrow>
               if \<not> ok
               then (False, (set_eof True (set_multi ((multi_of s)\<lparr>m_msgs := q\<rparr>) s))
                              \<lparr>is_error := - 1\<rparr>)
               else input_curl_multi_info_read
                      (set_eof True (set_multi ((multi_of s)\<lparr>m_msgs := q\<rparr>) s))
           | CURLMSG_OTHER \<Rightarrow>
               input_curl_multi_info_read (set_multi ((multi_of s)\<lparr>m_msgs := q\<rparr>) s)))"
  by pat_completeness auto
termination
  by (relation "measure (\<lambda>s. length (m_msgs (multi_of s)))") auto

declare input_curl_multi_info_read.simps [simp del]

subsection \<open>Consuming buffers\<close>

text \<open>
  \<^verbatim>\<open>consume_buffer\<close> is only ever called on the first buffer of \<^verbatim>\<open>c->buffers\<close>;
  \<open>rewind_head\<close> is \<open>True\<close> for \<^verbatim>\<open>&c->rewind\<close> and \<open>False\<close> for \<^verbatim>\<open>NULL\<close>.
\<close>

definition consume_buffer :: "nat \<Rightarrow> bool \<Rightarrow> input_curl \<Rightarrow> fault + input_curl" where
  "consume_buffer len rewind_head c =
     (case c_buffers c of
        [] \<Rightarrow> Inl AssertionFailed
      | buf # rest \<Rightarrow>
          if \<not> buf_consumed buf < buf_size buf then Inl AssertionFailed
          else if buf_consumed buf + len < buf_size buf
          then Inr (c\<lparr>c_buffers := buf\<lparr>buf_consumed := buf_consumed buf + len\<rparr> # rest\<rparr>)
          else if buf_consumed buf + len \<noteq> buf_size buf then Inl AssertionFailed
          else if rewind_head
          then Inr (c\<lparr>c_buffers := rest,
                      c_rewind := c_rewind c @ [buf\<lparr>buf_consumed := buf_consumed buf + len\<rparr>]\<rparr>)
          else Inr (c\<lparr>c_buffers := rest\<rparr>))"

definition read_from_buffer :: "nat \<Rightarrow> bool \<Rightarrow> input_curl \<Rightarrow> fault + (string \<times> input_curl)" where
  "read_from_buffer len rewind_head c =
     (case c_buffers c of
        [] \<Rightarrow> Inl AssertionFailed
      | buf # rest \<Rightarrow>
          if \<not> (buf_size buf > 0 \<and> buf_consumed buf < buf_size buf) then Inl AssertionFailed
          else
            (case consume_buffer (min len (buf_size buf - buf_consumed buf)) rewind_head c of
               Inl e \<Rightarrow> Inl e
             | Inr c' \<Rightarrow>
                 Inr (take (min len (buf_size buf - buf_consumed buf))
                        (drop (buf_consumed buf) (buf_data buf)), c')))"

subsection \<open>\<^verbatim>\<open>input_curl_read\<close>\<close>

text \<open>
  One round of the first loop of \<^verbatim>\<open>input_curl_read\<close>: the wait for the socket
  unless the last code was \<^verbatim>\<open>CURLM_CALL_MULTI_PERFORM\<close>, then
  \<^verbatim>\<open>curl_multi_perform\<close> and \<^verbatim>\<open>input_curl_multi_info_read\<close>. \<open>None\<close> is
  \<^verbatim>\<open>return 0\<close>; \<open>Some mcode\<close> goes on to the next test of the loop condition.
\<close>

definition read_perform :: "input_stream \<Rightarrow> fault + (curlmcode option \<times> input_stream)" where
  "read_perform s =
     (case curl_multi_perform s of
        Inl e \<Rightarrow> Inl e
      | Inr (mcode, s1) \<Rightarrow>
          if mcode \<noteq> CURLM_OK \<and> mcode \<noteq> CURLM_CALL_MULTI_PERFORM
          then Inr (None, set_eof True s1)
          else
            (case input_curl_multi_info_read s1 of
               (bret, s2) \<Rightarrow> if \<not> bret then Inr (None, s2) else Inr (Some mcode, s2)))"

definition read_poll :: "curlmcode \<Rightarrow> input_stream \<Rightarrow> fault + (curlmcode option \<times> input_stream)" where
  "read_poll mcode s =
     (if mcode \<noteq> CURLM_CALL_MULTI_PERFORM then
        (case input_curl_select s of
           Inl e \<Rightarrow> Inl e
         | Inr (ret, s1) \<Rightarrow> if ret \<le> 0 then Inr (None, s1) else read_perform s1)
      else read_perform s)"

text \<open>The same round, with the skipped wait written as a wait that returned 1.\<close>

lemma read_poll_alt:
  "read_poll mcode s =
     (case (if mcode \<noteq> CURLM_CALL_MULTI_PERFORM then input_curl_select s else Inr (1, s)) of
        Inl e \<Rightarrow> Inl e
      | Inr (ret, s1) \<Rightarrow>
          if mcode \<noteq> CURLM_CALL_MULTI_PERFORM \<and> ret \<le> 0 then Inr (None, s1)
          else
            (case curl_multi_perform s1 of
               Inl e \<Rightarrow> Inl e
             | Inr (mcode', s2) \<Rightarrow>
                 if mcode' \<noteq> CURLM_OK \<and> mcode' \<noteq> CURLM_CALL_MULTI_PERFORM
                 then Inr (None, set_eof True s2)
                 else
                   (case input_curl_multi_info_read s2 of
                      (bret, s3) \<Rightarrow> if \<not> bret then Inr (None, s3) else Inr (Some mcode', s3))))"
  by (simp add: read_poll_def read_perform_def split: sum.splits prod.splits)

lemma run_callback_multi: "multi_of (run_callback s cb) = multi_of s"
  by (cases cb)
     (simp_all add: input_curl_headerfunction_def input_curl_writefunction_def Let_def)

lemma foldl_run_callback_multi: "multi_of (foldl run_callback s cbs) = multi_of s"
  by (induction cbs arbitrary: s) (simp_all add: run_callback_multi)

lemma info_read_performs:
  "m_performs (multi_of (snd (input_curl_multi_info_read s))) = m_performs (multi_of s)"
proof (induction s rule: input_curl_multi_info_read.induct)
  case (1 s)
  show ?case
  proof (cases "m_msgs (multi_of s)")
    case Nil
    then show ?thesis by (simp add: input_curl_multi_info_read.simps [of s])
  next
    case (Cons msg q)
    then show ?thesis
      using "1.IH"
      by (cases msg) (auto simp: input_curl_multi_info_read.simps [of s])
  qed
qed

lemma perform_performs:
  "curl_multi_perform s = Inr (mcode, s') \<Longrightarrow>
     length (m_performs (multi_of s')) < length (m_performs (multi_of s))"
  by (auto simp: curl_multi_perform_def foldl_run_callback_multi split: list.splits)

lemma select_performs:
  "input_curl_select s = Inr (ret, s') \<Longrightarrow> m_performs (multi_of s') = m_performs (multi_of s)"
  by (auto simp: input_curl_select_def split: list.splits select_result.splits if_splits)

lemma read_poll_performs:
  assumes "read_poll mcode s = Inr (Some mcode', s')"
  shows "length (m_performs (multi_of s')) < length (m_performs (multi_of s))"
proof -
  obtain ret s1 where w:
    "(if mcode \<noteq> CURLM_CALL_MULTI_PERFORM then input_curl_select s else Inr (1, s)) = Inr (ret, s1)"
    using assms by (auto simp: read_poll_alt split: sum.splits)
  have p1: "m_performs (multi_of s1) = m_performs (multi_of s)"
    using w select_performs by (auto split: if_splits)
  obtain s2 where p: "curl_multi_perform s1 = Inr (mcode', s2)"
    and r: "input_curl_multi_info_read s2 = (True, s')"
    using assms w by (auto simp: read_poll_alt split: sum.splits if_splits prod.splits)
  have "m_performs (multi_of s') = m_performs (multi_of s2)"
    using info_read_performs [of s2] r by simp
  then show ?thesis using perform_performs [OF p] p1 by simp
qed

function fill_buffers :: "curlmcode \<Rightarrow> input_stream \<Rightarrow> fault + (bool \<times> input_stream)" where
  "fill_buffers mcode s =
     (if \<not> c_eof (is_data s) \<and> c_buffers (is_data s) = [] then
        (case read_poll mcode s of
           Inl e \<Rightarrow> Inl e
         | Inr (None, s') \<Rightarrow> Inr (False, s')
         | Inr (Some mcode', s') \<Rightarrow> fill_buffers mcode' s')
      else Inr (True, s))"
  by pat_completeness auto
termination
  by (relation "measure (\<lambda>(mcode, s). length (m_performs (multi_of s)))")
     (auto dest: read_poll_performs)

declare fill_buffers.simps [simp del]

definition pending_len :: "input_curl \<Rightarrow> nat" where
  "pending_len c = sum_list (map (\<lambda>b. buf_size b - buf_consumed b) (c_buffers c))"

lemma read_from_buffer_pending:
  "0 < sz \<Longrightarrow> read_from_buffer sz rewind_head c = Inr (bytes, c') \<Longrightarrow>
     pending_len c' < pending_len c"
  by (auto simp: read_from_buffer_def consume_buffer_def pending_len_def
           split: list.splits if_splits)

function copy_loop :: "nat \<Rightarrow> bool \<Rightarrow> input_curl \<Rightarrow> fault + (string \<times> input_curl)" where
  "copy_loop sz rewind_head c =
     (if sz > 0 \<and> c_buffers c \<noteq> [] then
        (case read_from_buffer sz rewind_head c of
           Inl e \<Rightarrow> Inl e
         | Inr (bytes, c') \<Rightarrow>
             (case copy_loop (sz - length bytes) rewind_head c' of
                Inl e \<Rightarrow> Inl e
              | Inr (tail, c'') \<Rightarrow> Inr (bytes @ tail, c'')))
      else Inr ([], c))"
  by pat_completeness auto
termination
  by (relation "measure (\<lambda>(sz, rewind_head, c). pending_len c)")
     (auto dest: read_from_buffer_pending)

declare copy_loop.simps [simp del]

definition input_curl_read :: "input_stream \<Rightarrow> nat \<Rightarrow> fault + (string \<times> input_stream)" where
  "input_curl_read s sz =
     (case fill_buffers CURLM_CALL_MULTI_PERFORM s of
        Inl e \<Rightarrow> Inl e
      | Inr (filled, s1) \<Rightarrow>
          if \<not> filled then Inr ([], s1)
          else
            let rewind_head = (c_rewind (is_data s1) \<noteq> [] \<or> is_offset s1 = 0) in
            (case copy_loop sz rewind_head (is_data s1) of
               Inl e \<Rightarrow> Inl e
             | Inr (bytes, c2) \<Rightarrow>
                 let offset' = is_offset s1 + int (length bytes) in
                 if rewind_head \<and> offset' > max_rewind_size
                 then Inr (bytes, s1\<lparr>is_offset := offset', is_data := c2\<lparr>c_rewind := []\<rparr>\<rparr>)
                 else Inr (bytes, s1\<lparr>is_offset := offset', is_data := c2\<rparr>)))"

definition input_curl_eof :: "input_stream \<Rightarrow> bool" where
  "input_curl_eof s = (c_eof (is_data s) \<and> c_buffers (is_data s) = [])"

subsection \<open>Opening and closing the libcurl easy handle\<close>

text \<open>
  \<^verbatim>\<open>input_curl_easy_free\<close>. Removing the easy handle from the multi handle also
  removes the handle's pending messages.
\<close>

definition input_curl_easy_free :: "input_curl \<Rightarrow> input_curl" where
  "input_curl_easy_free c =
     c\<lparr>c_easy := False,
       c_multi := (if c_easy c then (c_multi c)\<lparr>m_msgs := []\<rparr> else c_multi c),
       c_range := None, c_buffers := [], c_rewind := []\<rparr>"

text \<open>
  \<^verbatim>\<open>input_curl_easy_init\<close>. The scripted outcome says which of its three checked
  libcurl calls fails, if any; \<open>m_starts\<close> counts the calls of \<^verbatim>\<open>curl_easy_init\<close>.
\<close>

definition input_curl_easy_init :: "input_stream \<Rightarrow> fault + (bool \<times> input_stream)" where
  "input_curl_easy_init s =
     (case m_inits (multi_of s) of
        [] \<Rightarrow> Inl OutOfScript
      | r # rs \<Rightarrow>
          Inr (r = EasyOk,
               s\<lparr>is_data := (is_data s)
                    \<lparr>c_eof := False, c_easy := (r \<noteq> EasyNull),
                     c_multi := (multi_of s)\<lparr>m_inits := rs,
                                             m_starts := Suc (m_starts (multi_of s))\<rparr>\<rparr>\<rparr>))"

function input_curl_send_request :: "input_stream \<Rightarrow> fault + (bool \<times> input_stream)" where
  "input_curl_send_request s =
     (case curl_multi_perform s of
        Inl e \<Rightarrow> Inl e
      | Inr (mcode, s') \<Rightarrow>
          if mcode = CURLM_CALL_MULTI_PERFORM then input_curl_send_request s'
          else Inr (mcode = CURLM_OK, s'))"
  by pat_completeness auto
termination
  by (relation "measure (\<lambda>s. length (m_performs (multi_of s)))")
     (auto dest: perform_performs)

declare input_curl_send_request.simps [simp del]

subsection \<open>Rewinding and seeking\<close>

definition input_curl_can_rewind :: "input_stream \<Rightarrow> bool" where
  "input_curl_can_rewind s =
     (if c_rewind (is_data s) \<noteq> [] then True
      else
        (case c_buffers (is_data s) of
           [] \<Rightarrow> False
         | buf # rest \<Rightarrow> int (buf_consumed buf) = is_offset s))"

text \<open>
  \<^verbatim>\<open>input_curl_rewind\<close>, with its assertion that the consumed counts add up to
  the stream offset. \<^verbatim>\<open>list_splice_init\<close> puts the rewind list in front of the
  buffer list and leaves the rewind list empty.
\<close>

definition first_consumed :: "buffer list \<Rightarrow> nat" where
  "first_consumed bufs = (case bufs of [] \<Rightarrow> 0 | buf # rest \<Rightarrow> buf_consumed buf)"

definition reset_first :: "buffer list \<Rightarrow> buffer list" where
  "reset_first bufs = (case bufs of [] \<Rightarrow> [] | buf # rest \<Rightarrow> buf\<lparr>buf_consumed := 0\<rparr> # rest)"

definition input_curl_rewind :: "input_stream \<Rightarrow> fault + input_stream" where
  "input_curl_rewind s =
     (if int (sum_list (map buf_consumed (c_rewind (is_data s)))
                + first_consumed (c_buffers (is_data s))) \<noteq> is_offset s
      then Inl AssertionFailed
      else Inr (s\<lparr>is_offset := 0,
                  is_data := (is_data s)
                    \<lparr>c_buffers := map (\<lambda>b. b\<lparr>buf_consumed := 0\<rparr>) (c_rewind (is_data s))
                                    @ reset_first (c_buffers (is_data s)),
                     c_rewind := []\<rparr>\<rparr>))"

text \<open>
  The \<^verbatim>\<open>switch\<close> of \<^verbatim>\<open>input_curl_seek\<close> that computes the absolute offset; \<open>None\<close> is
  \<^verbatim>\<open>return false\<close>. The two additions are made on \<^verbatim>\<open>off_t\<close>, a signed 64-bit
  integer: \<open>off_t_add\<close> is the sum reduced modulo \<open>2 ^ 64\<close> to the range from
  \<open>- (2 ^ 63)\<close> to \<open>2 ^ 63 - 1\<close>, which is what the machine addition leaves when the
  sum overflows.
\<close>

definition off_t_add :: "int \<Rightarrow> int \<Rightarrow> int" where
  "off_t_add a b =
     (a + b + 9223372036854775808) mod 18446744073709551616 - 9223372036854775808"

definition seek_target :: "input_stream \<Rightarrow> int \<Rightarrow> int \<Rightarrow> int option" where
  "seek_target s offset whence =
     (if whence = SEEK_SET then Some offset
      else if whence = SEEK_CUR then Some (off_t_add offset (is_offset s))
      else if whence = SEEK_END
      then (if is_size s < 0 then None else Some (off_t_add offset (is_size s)))
      else None)"

definition skip_length :: "int \<Rightarrow> input_stream \<Rightarrow> buffer \<Rightarrow> nat" where
  "skip_length offset s buf =
     (if offset - is_offset s < int (buf_size buf - buf_consumed buf)
      then nat (offset - is_offset s)
      else buf_size buf - buf_consumed buf)"

lemma consume_buffer_first:
  "consume_buffer len rewind_head c = Inr c' \<Longrightarrow> c_buffers c = buf # rest \<Longrightarrow>
     buf_consumed buf < buf_size buf"
  by (auto simp: consume_buffer_def split: if_splits)

function fast_forward :: "int \<Rightarrow> input_stream \<Rightarrow> fault + input_stream" where
  "fast_forward offset s =
     (case c_buffers (is_data s) of
        [] \<Rightarrow> Inr s
      | buf # rest \<Rightarrow>
          if \<not> offset > is_offset s then Inr s
          else
            (case consume_buffer (skip_length offset s buf)
                    (c_rewind (is_data s) \<noteq> [] \<or> is_offset s = 0) (is_data s) of
               Inl e \<Rightarrow> Inl e
             | Inr c' \<Rightarrow>
                 fast_forward offset
                   (s\<lparr>is_offset := is_offset s + int (skip_length offset s buf),
                      is_data := c'\<rparr>)))"
  by pat_completeness auto
termination
  by (relation "measure (\<lambda>(offset, s). nat (offset - is_offset s))")
     (auto simp: skip_length_def dest: consume_buffer_first)

declare fast_forward.simps [simp del]

fun decimal :: "nat \<Rightarrow> string" where
  "decimal n =
     (if n < 10 then [char_of (48 + n)] else decimal (n div 10) @ [char_of (48 + n mod 10)])"

declare decimal.simps [simp del]

definition input_curl_seek :: "input_stream \<Rightarrow> int \<Rightarrow> int \<Rightarrow> fault + (bool \<times> input_stream)" where
  "input_curl_seek s offset whence =
     (if whence = SEEK_SET \<and> offset = 0 \<and> is_offset s = 0 then Inr (True, s)
      else if whence = SEEK_SET \<and> offset = 0 \<and> input_curl_can_rewind s then
        (case input_curl_rewind s of Inl e \<Rightarrow> Inl e | Inr s' \<Rightarrow> Inr (True, s'))
      else if \<not> is_seekable s then Inr (False, s)
      else
        (case seek_target s offset whence of
           None \<Rightarrow> Inr (False, s)
         | Some target \<Rightarrow>
             if target < 0 then Inr (False, s)
             else
               (case fast_forward target s of
                  Inl e \<Rightarrow> Inl e
                | Inr s1 \<Rightarrow>
                    if target = is_offset s1 then Inr (True, s1)
                    else if target = is_size s1
                    then Inr (True, s1\<lparr>is_offset := target,
                                       is_data := (input_curl_easy_free (is_data s1))
                                                    \<lparr>c_eof := True\<rparr>\<rparr>)
                    else
                      (case input_curl_easy_init
                              (s1\<lparr>is_offset := target,
                                  is_data := input_curl_easy_free (is_data s1)\<rparr>) of
                         Inl e \<Rightarrow> Inl e
                       | Inr (ret, s2) \<Rightarrow>
                           if \<not> ret then Inr (False, s2)
                           else
                             (case input_curl_send_request
                                     (if is_offset s2 > 0
                                      then s2\<lparr>is_data := (is_data s2)
                                             \<lparr>c_range := Some (decimal (nat (is_offset s2)) @ ''-'')\<rparr>\<rparr>
                                      else s2) of
                                Inl e \<Rightarrow> Inl e
                              | Inr (sent, s3) \<Rightarrow>
                                  if \<not> sent then Inr (False, s3)
                                  else Inr (input_curl_multi_info_read s3))))))"

subsection \<open>Pumping and opening\<close>

function buffer_loop :: "input_stream \<Rightarrow> fault + (curlmcode \<times> input_stream)" where
  "buffer_loop s =
     (case curl_multi_perform s of
        Inl e \<Rightarrow> Inl e
      | Inr (mcode, s') \<Rightarrow>
          if mcode = CURLM_CALL_MULTI_PERFORM \<and> c_buffers (is_data s') = [] then buffer_loop s'
          else Inr (mcode, s'))"
  by pat_completeness auto
termination
  by (relation "measure (\<lambda>s. length (m_performs (multi_of s)))")
     (auto dest: perform_performs)

declare buffer_loop.simps [simp del]

definition input_curl_buffer :: "input_stream \<Rightarrow> fault + (int \<times> input_stream)" where
  "input_curl_buffer s =
     (case buffer_loop (s\<lparr>is_data := (is_data s)\<lparr>c_buffered := False\<rparr>\<rparr>) of
        Inl e \<Rightarrow> Inl e
      | Inr (mcode, s1) \<Rightarrow>
          if mcode \<noteq> CURLM_OK \<and> mcode \<noteq> CURLM_CALL_MULTI_PERFORM
          then Inr (- 1, set_eof True s1)
          else
            (case input_curl_multi_info_read s1 of
               (ret, s2) \<Rightarrow>
                 if \<not> ret then Inr (- 1, s2)
                 else Inr (if c_buffered (is_data s2) then 1 else 0, s2)))"

text \<open>
  \<^verbatim>\<open>input_curl_open\<close>. The second argument is what \<^verbatim>\<open>curl_multi_init\<close> returns
  (\<open>None\<close> for \<^verbatim>\<open>NULL\<close>). On failure the stream is freed; the model returns it
  with its lists emptied.
\<close>

definition input_curl_open :: "input_stream \<Rightarrow> string \<Rightarrow> curlm option \<Rightarrow> fault + (bool \<times> input_stream)" where
  "input_curl_open s url multi =
     (if take 7 (c_string url) \<noteq> ''http://'' then Inr (False, s)
      else
        (case multi of
           None \<Rightarrow> Inr (False, s)
         | Some m \<Rightarrow>
             (case input_curl_easy_init
                     (s\<lparr>is_data := \<lparr>c_url = c_string url, c_range = None, c_easy = False,
                                     c_multi = m, c_buffers = [], c_buffered = False,
                                     c_eof = False, c_rewind = []\<rparr>\<rparr>) of
                Inl e \<Rightarrow> Inl e
              | Inr (ret, s1) \<Rightarrow>
                  if \<not> ret
                  then Inr (False, s1\<lparr>is_data := input_curl_easy_free (is_data s1)\<rparr>)
                  else
                    (case input_curl_send_request s1 of
                       Inl e \<Rightarrow> Inl e
                     | Inr (sent, s2) \<Rightarrow>
                         if \<not> sent
                         then Inr (False, s2\<lparr>is_data := input_curl_easy_free (is_data s2)\<rparr>)
                         else Inr (True, s2)))))"

subsection \<open>Well-formed streams and the bytes ahead\<close>

text \<open>
  What \<^verbatim>\<open>input_curl_writefunction\<close> and \<^verbatim>\<open>consume_buffer\<close> maintain: a queued
  buffer is non-empty with \<open>consumed < size\<close>, only the first one may be partly
  consumed, and a buffer on the rewind list is fully consumed.
\<close>

definition wf_buffer :: "buffer \<Rightarrow> bool" where
  "wf_buffer b = (0 < buf_size b \<and> buf_size b = length (buf_data b))"

definition wf_curl :: "input_curl \<Rightarrow> bool" where
  "wf_curl c =
     (list_all (\<lambda>b. wf_buffer b \<and> buf_consumed b < buf_size b) (c_buffers c) \<and>
      list_all (\<lambda>b. buf_consumed b = 0) (tl (c_buffers c)) \<and>
      list_all (\<lambda>b. wf_buffer b \<and> buf_consumed b = buf_size b) (c_rewind c))"

text \<open>The bytes queued and not yet read, and the bytes the engine has yet to deliver.\<close>

definition queued :: "input_curl \<Rightarrow> string" where
  "queued c = concat (map (\<lambda>b. drop (buf_consumed b) (buf_data b)) (c_buffers c))"

fun callback_body :: "callback \<Rightarrow> string" where
  "callback_body (HeaderLine h) = []"
| "callback_body (BodyChunk b) = b"

definition engine_body :: "perform_result list \<Rightarrow> string" where
  "engine_body rs = concat (map (\<lambda>r. concat (map callback_body (pr_callbacks r))) rs)"

definition remaining :: "input_stream \<Rightarrow> string" where
  "remaining s = queued (is_data s) @ engine_body (m_performs (multi_of s))"

definition rewind_total :: "input_curl \<Rightarrow> nat" where
  "rewind_total c = sum_list (map buf_size (c_rewind c))"

text \<open>
  The body bytes the engine delivers between two states of a stream: those of the
  \<^verbatim>\<open>curl_multi_perform\<close> outcomes consumed from the script.
\<close>

definition delivered :: "input_stream \<Rightarrow> input_stream \<Rightarrow> string" where
  "delivered s s' =
     engine_body (take (length (m_performs (multi_of s)) - length (m_performs (multi_of s')))
                    (m_performs (multi_of s)))"

text \<open>
  A run of reads with the requested sizes \<open>ns\<close>: what each call returned, and
  \<^verbatim>\<open>is->offset\<close> after it.
\<close>

fun read_all :: "input_stream \<Rightarrow> nat list \<Rightarrow> fault + ((string \<times> int) list \<times> input_stream)" where
  "read_all s [] = Inr ([], s)"
| "read_all s (n # ns) =
     (case input_curl_read s n of
        Inl e \<Rightarrow> Inl e
      | Inr (bytes, s1) \<Rightarrow>
          (case read_all s1 ns of
             Inl e \<Rightarrow> Inl e
           | Inr (outs, s2) \<Rightarrow> Inr ((bytes, is_offset s1) # outs, s2)))"

text \<open>Each recorded offset is the one before it plus the number of bytes returned.\<close>

fun offsets_ok :: "int \<Rightarrow> (string \<times> int) list \<Rightarrow> bool" where
  "offsets_ok before [] = True"
| "offsets_ok before ((bytes, after) # tr) =
     (after = before + int (length bytes) \<and> offsets_ok after tr)"

text \<open>The number that a string of decimal digits denotes.\<close>

definition decimal_value :: "string \<Rightarrow> nat" where
  "decimal_value ds = foldl (\<lambda>acc ch. acc * 10 + digit_val ch) 0 ds"

subsection \<open>Notions used in the proofs\<close>

text \<open>
  \<open>first_taken\<close> is the part of the first queued buffer that has been read already.
  \<open>polled s s'\<close> collects what a round of polling the engine cannot change: the
  offset, the rewind list, the consumed part of the first buffer, the bytes ahead,
  the number of handles created, and well-formedness.
\<close>

definition first_taken :: "buffer list \<Rightarrow> string" where
  "first_taken bufs = (case bufs of [] \<Rightarrow> [] | buf # rest \<Rightarrow> take (buf_consumed buf) (buf_data buf))"

definition polled :: "input_stream \<Rightarrow> input_stream \<Rightarrow> bool" where
  "polled s s' =
     (is_offset s' = is_offset s \<and>
      c_rewind (is_data s') = c_rewind (is_data s) \<and>
      first_taken (c_buffers (is_data s')) = first_taken (c_buffers (is_data s)) \<and>
      first_consumed (c_buffers (is_data s')) = first_consumed (c_buffers (is_data s)) \<and>
      remaining s' = remaining s \<and>
      m_starts (multi_of s') = m_starts (multi_of s) \<and>
      m_inits (multi_of s') = m_inits (multi_of s) \<and>
      (c_buffers (is_data s) \<noteq> [] \<longrightarrow> c_buffers (is_data s') \<noteq> []) \<and>
      (c_eof (is_data s) \<longrightarrow> c_eof (is_data s')) \<and>
      (wf_curl (is_data s) \<longrightarrow> wf_curl (is_data s')))"

text \<open>\<open>fed s s'\<close>: the buffer list grew by what the engine delivered, and only so.\<close>

definition fed :: "input_stream \<Rightarrow> input_stream \<Rightarrow> bool" where
  "fed s s' =
     (\<exists>used. m_performs (multi_of s) = used @ m_performs (multi_of s') \<and>
             queued (is_data s') = queued (is_data s) @ engine_body used)"

text \<open>
  What \<^verbatim>\<open>input_curl_select\<close> returns on an outcome, when it returns; and the
  outcome on which its assertion fails.
\<close>

definition select_value :: "select_result \<Rightarrow> int" where
  "select_value r = (case r of FdsetFailed \<Rightarrow> - 1 | Select max_fd ret \<Rightarrow> ret)"

definition no_descriptor :: "select_result \<Rightarrow> bool" where
  "no_descriptor r = (case r of FdsetFailed \<Rightarrow> False | Select max_fd ret \<Rightarrow> max_fd < 0)"

text \<open>
  \<open>copied rewind_head c out c'\<close>: what the copying loop of \<^verbatim>\<open>input_curl_read\<close> does
  to the two lists when it returns the bytes \<open>out\<close>. With a rewind list the history
  (rewind list, then the consumed part of the first buffer) grows by \<open>out\<close>; without
  one, either the first buffer is still the same and its consumed part grows by
  \<open>out\<close>, or a buffer was dropped.
\<close>

definition copied :: "bool \<Rightarrow> input_curl \<Rightarrow> string \<Rightarrow> input_curl \<Rightarrow> bool" where
  "copied rewind_head c out c' =
     (wf_curl c' \<and> queued c = out @ queued c' \<and>
      c' = c\<lparr>c_buffers := c_buffers c', c_rewind := c_rewind c'\<rparr> \<and>
      (c_buffers c = [] \<longrightarrow> c_buffers c' = []) \<and>
      (if rewind_head
       then concat (map buf_data (c_rewind c')) @ first_taken (c_buffers c')
              = concat (map buf_data (c_rewind c)) @ first_taken (c_buffers c) @ out
       else c_rewind c' = c_rewind c \<and>
            ((first_consumed (c_buffers c') = first_consumed (c_buffers c) + length out \<and>
              first_taken (c_buffers c') = first_taken (c_buffers c) @ out) \<or>
             first_consumed (c_buffers c') < first_consumed (c_buffers c) + length out)))"

text \<open>
  \<open>history_ok c H\<close>: how the two lists relate to the bytes \<open>H\<close> read since offset 0.
  As long as there is a rewind list, \<open>H\<close> is its payload followed by the consumed part
  of the first buffer. Without one, the first buffer has consumed at most
  \<open>length H\<close> bytes, and if exactly that many, they are \<open>H\<close>.
\<close>

definition tracked :: "input_curl \<Rightarrow> string \<Rightarrow> bool" where
  "tracked c H = (H = concat (map buf_data (c_rewind c)) @ first_taken (c_buffers c))"

definition history_ok :: "input_curl \<Rightarrow> string \<Rightarrow> bool" where
  "history_ok c H =
     (if c_rewind c \<noteq> [] then tracked c H
      else first_consumed (c_buffers c) \<le> length H \<and>
           (first_consumed (c_buffers c) = length H \<longrightarrow> tracked c H))"

subsection \<open>Example streams\<close>

text \<open>
  A stream as the host hands it to \<^verbatim>\<open>input_curl_open\<close> (offset 0, size unknown,
  not seekable, no error), and a multi handle with a given script.
\<close>

definition new_stream :: input_stream where
  "new_stream =
     \<lparr>is_offset = 0, is_size = - 1, is_seekable = False, is_error = 0, is_ready = False,
      is_mime = None, is_meta_name = None,
      is_data = \<lparr>c_url = [], c_range = None, c_easy = False,
                 c_multi = \<lparr>m_performs = [], m_selects = [], m_inits = [], m_msgs = [],
                            m_starts = 0\<rparr>,
                 c_buffers = [], c_buffered = False, c_eof = False, c_rewind = []\<rparr>\<rparr>"

definition script :: "perform_result list \<Rightarrow> select_result list \<Rightarrow> easy_init_result list \<Rightarrow> curlm" where
  "script ps sels inits =
     \<lparr>m_performs = ps, m_selects = sels, m_inits = inits, m_msgs = [], m_starts = 0\<rparr>"

definition performs :: "callback list \<Rightarrow> curlmcode \<Rightarrow> curlmsg list \<Rightarrow> perform_result" where
  "performs cbs mcode msgs = \<lparr>pr_callbacks = cbs, pr_code = mcode, pr_msgs = msgs\<rparr>"

definition opened :: "perform_result list \<Rightarrow> select_result list \<Rightarrow> easy_init_result list \<Rightarrow> input_stream" where
  "opened ps sels inits =
     (case input_curl_open new_stream ''http://host/stream'' (Some (script ps sels (EasyOk # inits))) of
        Inr (ok, s) \<Rightarrow> s
      | Inl e \<Rightarrow> new_stream)"

text \<open>A stream that is not seekable and has read 2 bytes of a 4-byte chunk.\<close>

definition half_read_stream :: input_stream where
  "half_read_stream =
     (case read_all (opened [performs [BodyChunk ''abcd''] CURLM_OK []] [] []) [2] of
        Inr (outs, s) \<Rightarrow> s
      | Inl e \<Rightarrow> new_stream)"

text \<open>
  A stream whose engine delivers \<open>abc\<close> while the request is sent, then \<open>defgh\<close>
  together with the end of the transfer.
\<close>

definition two_chunk_stream :: input_stream where
  "two_chunk_stream =
     opened [performs [BodyChunk ''abc''] CURLM_OK [],
             performs [BodyChunk ''defgh''] CURLM_OK [CURLMSG_DONE True]] [Select 4 1] []"

text \<open>
  A stream whose engine has nothing to deliver yet: \<^verbatim>\<open>curl_multi_perform\<close> returns
  \<^verbatim>\<open>CURLM_OK\<close> without data, and the wait for the socket times out.
\<close>

definition idle_stream :: input_stream where
  "idle_stream = opened [performs [] CURLM_OK [], performs [] CURLM_OK []] [Select 4 0] []"

text \<open>
  A stream whose engine has nothing to deliver yet and no descriptor to wait for:
  \<^verbatim>\<open>curl_multi_fdset\<close> stores -1 in \<^verbatim>\<open>max_fd\<close>.
\<close>

definition no_descriptor_stream :: input_stream where
  "no_descriptor_stream =
     opened [performs [] CURLM_OK [], performs [] CURLM_OK []] [Select (- 1) 0] []"

text \<open>
  A stream whose transfer fails after two body bytes: the same call of
  \<^verbatim>\<open>curl_multi_perform\<close> delivers the bytes and completes the transfer with an error.
\<close>

definition failing_stream :: input_stream where
  "failing_stream =
     opened [performs [] CURLM_OK [],
             performs [BodyChunk ''ab''] CURLM_OK [CURLMSG_DONE False]] [] []"

text \<open>
  A stream with \<open>abcd\<close> queued that is seekable and of known size 8, as the
  headers Accept-Ranges and Content-Length make it; and a seekable stream of unknown
  size whose engine delivers \<open>xy\<close> to the next request and then fails in
  \<^verbatim>\<open>curl_multi_perform\<close>.
\<close>

definition sized_stream :: input_stream where
  "sized_stream =
     (opened [performs [BodyChunk ''abcd''] CURLM_OK []] [] [])\<lparr>is_seekable := True, is_size := 8\<rparr>"

definition refused_stream :: input_stream where
  "refused_stream =
     (opened [performs [BodyChunk ''abcd''] CURLM_OK [],
              performs [BodyChunk ''xy''] CURLM_CALL_MULTI_PERFORM [],
              performs [] CURLM_ERROR []] [] [EasyOk])\<lparr>is_seekable := True\<rparr>"

text \<open>
  A seekable stream that has been opened and not read yet, with five chunks of 16 KiB
  (the largest block libcurl passes to the write callback by default) queued while
  the request was sent.
\<close>

definition chunk16k :: string where
  "chunk16k = replicate 16384 (CHR ''a'')"

definition five_chunk_stream :: input_stream where
  "five_chunk_stream =
     opened [performs [HeaderLine ''Accept-Ranges: bytes'', BodyChunk chunk16k]
               CURLM_CALL_MULTI_PERFORM [],
             performs [BodyChunk chunk16k] CURLM_CALL_MULTI_PERFORM [],
             performs [BodyChunk chunk16k] CURLM_CALL_MULTI_PERFORM [],
             performs [BodyChunk chunk16k] CURLM_CALL_MULTI_PERFORM [],
             performs [BodyChunk chunk16k] CURLM_OK []] [] []"

text \<open>A stream that is not seekable, with one chunk \<open>abcd\<close> queued and nothing read.\<close>

definition one_chunk_stream :: input_stream where
  "one_chunk_stream = opened [performs [BodyChunk ''abcd''] CURLM_OK []] [] []"

text \<open>
  The same stream made seekable, as the header Accept-Ranges makes it, with an engine
  that accepts one more request and delivers \<open>abcd\<close> to it.
\<close>

definition one_chunk_seekable_stream :: input_stream where
  "one_chunk_seekable_stream =
     (opened [performs [BodyChunk ''abcd''] CURLM_OK [],
              performs [BodyChunk ''abcd''] CURLM_OK []] [] [EasyOk])\<lparr>is_seekable := True\<rparr>"

section \<open>Polling the engine\<close>

lemma polled_refl: "polled s s"
  by (simp add: polled_def)

lemma polled_trans: "polled s s1 \<Longrightarrow> polled s1 s2 \<Longrightarrow> polled s s2"
  by (simp add: polled_def)

lemma headerfunction_data: "is_data (input_curl_headerfunction h s) = is_data s"
  by (simp add: input_curl_headerfunction_def Let_def)

lemma headerfunction_offset: "is_offset (input_curl_headerfunction h s) = is_offset s"
  by (simp add: input_curl_headerfunction_def Let_def)

lemma headerfunction_error: "is_error (input_curl_headerfunction h s) = is_error s"
  by (simp add: input_curl_headerfunction_def Let_def)

lemma queued_update [simp]:
  "queued (c\<lparr>c_multi := m\<rparr>) = queued c"
  "queued (c\<lparr>c_eof := e\<rparr>) = queued c"
  "queued (c\<lparr>c_rewind := rw\<rparr>) = queued c"
  "queued (c\<lparr>c_buffers := bs\<rparr>) = concat (map (\<lambda>b. drop (buf_consumed b) (buf_data b)) bs)"
  by (simp_all add: queued_def)

lemma wf_curl_update [simp]:
  "wf_curl (c\<lparr>c_multi := m\<rparr>) = wf_curl c"
  "wf_curl (c\<lparr>c_eof := e\<rparr>) = wf_curl c"
  by (simp_all add: wf_curl_def)

lemma queued_append:
  "queued (c\<lparr>c_buffers := c_buffers c @ bs\<rparr>)
     = queued c @ concat (map (\<lambda>b. drop (buf_consumed b) (buf_data b)) bs)"
  by (simp add: queued_def)

lemma wf_curl_append:
  assumes "wf_curl c" and "b \<noteq> []"
  shows "wf_curl (c\<lparr>c_buffers := c_buffers c @ [\<lparr>buf_size = length b, buf_consumed = 0, buf_data = b\<rparr>],
                    c_buffered := True\<rparr>)"
  using assms by (cases "c_buffers c") (auto simp: wf_curl_def wf_buffer_def)

lemma first_taken_append:
  "first_taken (bs @ [\<lparr>buf_size = n, buf_consumed = 0, buf_data = b\<rparr>]) = first_taken bs"
  by (cases bs) (simp_all add: first_taken_def)

lemma first_consumed_append:
  "first_consumed (bs @ [\<lparr>buf_size = n, buf_consumed = 0, buf_data = b\<rparr>]) = first_consumed bs"
  by (cases bs) (simp_all add: first_consumed_def)

lemma run_callback_error: "is_error (run_callback s cb) = is_error s"
  by (cases cb) (simp_all add: headerfunction_error input_curl_writefunction_def Let_def)

lemma run_callback_eof: "c_eof (is_data (run_callback s cb)) = c_eof (is_data s)"
  by (cases cb) (simp_all add: headerfunction_data input_curl_writefunction_def Let_def)

lemma run_callback_queued:
  "queued (is_data (run_callback s cb)) = queued (is_data s) @ callback_body cb"
  by (cases cb)
     (simp_all add: headerfunction_data input_curl_writefunction_def Let_def queued_def)

lemma run_callback_frame:
  "is_offset (run_callback s cb) = is_offset s"
  "c_rewind (is_data (run_callback s cb)) = c_rewind (is_data s)"
  "first_taken (c_buffers (is_data (run_callback s cb))) = first_taken (c_buffers (is_data s))"
  "first_consumed (c_buffers (is_data (run_callback s cb))) = first_consumed (c_buffers (is_data s))"
  "c_buffers (is_data s) \<noteq> [] \<Longrightarrow> c_buffers (is_data (run_callback s cb)) \<noteq> []"
  "wf_curl (is_data s) \<Longrightarrow> wf_curl (is_data (run_callback s cb))"
  by (cases cb; simp add: headerfunction_data headerfunction_offset input_curl_writefunction_def
        Let_def first_taken_append first_consumed_append wf_curl_append)+

lemma foldl_run_callback_error: "is_error (foldl run_callback s cbs) = is_error s"
  by (induction cbs arbitrary: s) (simp_all add: run_callback_error)

lemma foldl_run_callback_eof: "c_eof (is_data (foldl run_callback s cbs)) = c_eof (is_data s)"
  by (induction cbs arbitrary: s) (simp_all add: run_callback_eof)

lemma foldl_run_callback_queued:
  "queued (is_data (foldl run_callback s cbs))
     = queued (is_data s) @ concat (map callback_body cbs)"
  by (induction cbs arbitrary: s) (simp_all add: run_callback_queued)

lemma foldl_run_callback_frame:
  "is_offset (foldl run_callback s cbs) = is_offset s"
  "c_rewind (is_data (foldl run_callback s cbs)) = c_rewind (is_data s)"
  "first_taken (c_buffers (is_data (foldl run_callback s cbs))) = first_taken (c_buffers (is_data s))"
  "first_consumed (c_buffers (is_data (foldl run_callback s cbs))) = first_consumed (c_buffers (is_data s))"
  "c_buffers (is_data s) \<noteq> [] \<Longrightarrow> c_buffers (is_data (foldl run_callback s cbs)) \<noteq> []"
  "wf_curl (is_data s) \<Longrightarrow> wf_curl (is_data (foldl run_callback s cbs))"
  by (induction cbs arbitrary: s; simp add: run_callback_frame)+

lemma perform_cases:
  assumes "curl_multi_perform s = Inr (mcode, s')"
  obtains r rs where "m_performs (multi_of s) = r # rs" and "mcode = pr_code r"
    and "s' = foldl run_callback
                (set_multi ((multi_of s)\<lparr>m_performs := rs,
                                         m_msgs := m_msgs (multi_of s) @ pr_msgs r\<rparr>) s)
                (pr_callbacks r)"
  using assms by (auto simp: curl_multi_perform_def split: list.splits)

lemma perform_polled:
  assumes "curl_multi_perform s = Inr (mcode, s')"
  shows "polled s s'"
proof -
  from assms obtain r rs where r: "m_performs (multi_of s) = r # rs"
    and s': "s' = foldl run_callback
                (set_multi ((multi_of s)\<lparr>m_performs := rs,
                                         m_msgs := m_msgs (multi_of s) @ pr_msgs r\<rparr>) s)
                (pr_callbacks r)"
    by (rule perform_cases)
  have m: "multi_of s' = (multi_of s)\<lparr>m_performs := rs, m_msgs := m_msgs (multi_of s) @ pr_msgs r\<rparr>"
    by (simp add: s' foldl_run_callback_multi)
  have rem: "remaining s' = remaining s"
    unfolding remaining_def m by (simp add: r s' foldl_run_callback_queued engine_body_def)
  show ?thesis
    unfolding polled_def
    by (simp add: rem m) (simp add: s' foldl_run_callback_frame foldl_run_callback_eof)
qed

lemma perform_error: "curl_multi_perform s = Inr (mcode, s') \<Longrightarrow> is_error s' = is_error s"
  by (erule perform_cases) (simp add: foldl_run_callback_error)

lemma perform_selects:
  "curl_multi_perform s = Inr (mcode, s') \<Longrightarrow> m_selects (multi_of s') = m_selects (multi_of s)"
  by (erule perform_cases) (simp add: foldl_run_callback_multi)

lemma select_cases:
  assumes "input_curl_select s = Inr (ret, s')"
  obtains r rs where "m_selects (multi_of s) = r # rs" and "ret = select_value r"
    and "s' = set_multi ((multi_of s)\<lparr>m_selects := rs\<rparr>) s"
  using assms
  by (auto simp: input_curl_select_def select_value_def
           split: list.splits select_result.splits if_splits)

lemma select_polled: "input_curl_select s = Inr (ret, s') \<Longrightarrow> polled s s'"
  by (erule select_cases) (simp add: polled_def remaining_def)

lemma select_error: "input_curl_select s = Inr (ret, s') \<Longrightarrow> is_error s' = is_error s"
  by (erule select_cases) simp

lemma set_eof_polled: "polled s (set_eof True s)"
  by (simp add: polled_def remaining_def)

lemma info_read_polled: "polled s (snd (input_curl_multi_info_read s))"
proof (induction s rule: input_curl_multi_info_read.induct)
  case (1 s)
  show ?case
  proof (cases "m_msgs (multi_of s)")
    case Nil
    then show ?thesis by (simp add: input_curl_multi_info_read.simps [of s] polled_refl)
  next
    case (Cons msg q)
    let ?s1 = "set_multi ((multi_of s)\<lparr>m_msgs := q\<rparr>) s"
    have p1: "polled s ?s1"
      by (simp add: polled_def remaining_def)
    have p2: "polled s (set_eof True ?s1)"
      by (simp add: polled_def remaining_def)
    have p3: "polled s ((set_eof True ?s1)\<lparr>is_error := - 1\<rparr>)"
      by (simp add: polled_def remaining_def)
    show ?thesis
    proof (cases msg)
      case (CURLMSG_DONE ok)
      show ?thesis
      proof (cases ok)
        case True
        then show ?thesis
          using Cons CURLMSG_DONE "1.IH"(1) [OF Cons CURLMSG_DONE] p2
          by (simp add: input_curl_multi_info_read.simps [of s]) (blast intro: polled_trans)
      next
        case False
        then show ?thesis
          using Cons CURLMSG_DONE p3 by (simp add: input_curl_multi_info_read.simps [of s])
      qed
    next
      case CURLMSG_OTHER
      then show ?thesis
        using Cons "1.IH"(2) [OF Cons CURLMSG_OTHER] p1
        by (simp add: input_curl_multi_info_read.simps [of s]) (blast intro: polled_trans)
    qed
  qed
qed

lemma info_read_flags:
  "input_curl_multi_info_read s = (r, s') \<Longrightarrow>
     (\<not> r \<longrightarrow> c_eof (is_data s') \<and> is_error s' = - 1) \<and>
     (r \<longrightarrow> is_error s' = is_error s) \<and>
     m_selects (multi_of s') = m_selects (multi_of s)"
proof (induction s arbitrary: r s' rule: input_curl_multi_info_read.induct)
  case (1 s)
  show ?case
  proof (cases "m_msgs (multi_of s)")
    case Nil
    then show ?thesis
      using "1.prems" by (simp add: input_curl_multi_info_read.simps [of s])
  next
    case (Cons msg q)
    show ?thesis
    proof (cases msg)
      case (CURLMSG_DONE ok)
      show ?thesis
      proof (cases ok)
        case True
        then show ?thesis
          using Cons CURLMSG_DONE "1.prems" "1.IH"(1) [OF Cons CURLMSG_DONE, of r s']
          by (simp add: input_curl_multi_info_read.simps [of s])
      next
        case False
        then show ?thesis
          using Cons CURLMSG_DONE "1.prems"
          by (auto simp: input_curl_multi_info_read.simps [of s])
      qed
    next
      case CURLMSG_OTHER
      then show ?thesis
        using Cons "1.prems" "1.IH"(2) [OF Cons CURLMSG_OTHER, of r s']
        by (simp add: input_curl_multi_info_read.simps [of s])
    qed
  qed
qed

text \<open>What one round of polling in \<^verbatim>\<open>input_curl_read\<close> can do.\<close>

lemma read_poll_all:
  assumes "read_poll mcode s = Inr (nxt, s')"
  shows "polled s s' \<and>
        (nxt \<noteq> None \<longrightarrow> is_error s' = is_error s) \<and>
        (nxt \<noteq> None \<longrightarrow> (\<exists>used. m_selects (multi_of s) = used @ m_selects (multi_of s'))) \<and>
        (nxt = None \<longrightarrow> c_eof (is_data s') \<or>
           (\<exists>r. m_selects (multi_of s) = r # m_selects (multi_of s') \<and> select_value r \<le> 0)) \<and>
        (is_error s' \<noteq> is_error s \<longrightarrow> nxt = None \<and> c_eof (is_data s') \<and> is_error s' = - 1)"
proof -
  obtain ret s1 where w:
    "(if mcode \<noteq> CURLM_CALL_MULTI_PERFORM then input_curl_select s else Inr (1, s)) = Inr (ret, s1)"
    using assms by (auto simp: read_poll_alt split: sum.splits)
  have w_polled: "polled s s1"
    using w by (auto split: if_splits intro: select_polled polled_refl)
  have w_error: "is_error s1 = is_error s"
    using w by (auto split: if_splits dest: select_error)
  have w_sel: "\<exists>used. m_selects (multi_of s) = used @ m_selects (multi_of s1)"
    using w by (auto split: if_splits elim!: select_cases)
  have w_stop: "mcode \<noteq> CURLM_CALL_MULTI_PERFORM \<and> ret \<le> 0 \<Longrightarrow>
      \<exists>r. m_selects (multi_of s) = r # m_selects (multi_of s1) \<and> select_value r \<le> 0"
    using w by (auto split: if_splits elim!: select_cases)
  show ?thesis
  proof (cases "mcode \<noteq> CURLM_CALL_MULTI_PERFORM \<and> ret \<le> 0")
    case True
    then have "nxt = None" "s' = s1"
      using assms w by (auto simp: read_poll_alt)
    then show ?thesis
      using w_polled w_error w_stop True by simp
  next
    case False
    then obtain mcode' s2 where p: "curl_multi_perform s1 = Inr (mcode', s2)"
      using assms w by (auto simp: read_poll_alt split: sum.splits if_splits)
    have p_polled: "polled s s2"
      using w_polled perform_polled [OF p] by (rule polled_trans)
    have p_error: "is_error s2 = is_error s"
      using perform_error [OF p] w_error by simp
    have p_sel: "m_selects (multi_of s2) = m_selects (multi_of s1)"
      using perform_selects [OF p] .
    show ?thesis
    proof (cases "mcode' \<noteq> CURLM_OK \<and> mcode' \<noteq> CURLM_CALL_MULTI_PERFORM")
      case True
      then have "nxt = None" "s' = set_eof True s2"
        using assms w p False by (auto simp: read_poll_alt)
      then show ?thesis
        using p_polled p_error set_eof_polled [of s2] by (auto intro: polled_trans)
    next
      case ok: False
      obtain bret s3 where r: "input_curl_multi_info_read s2 = (bret, s3)"
        by (cases "input_curl_multi_info_read s2")
      have r_polled: "polled s s3"
        using p_polled info_read_polled [of s2] r by (auto intro: polled_trans)
      have res: "nxt = (if bret then Some mcode' else None)" "s' = s3"
        using assms w p False ok r by (auto simp: read_poll_alt split: if_splits)
      show ?thesis
        using res r_polled info_read_flags [OF r] p_error p_sel w_sel by auto
    qed
  qed
qed

lemma read_poll_props:
  assumes "read_poll mcode s = Inr (nxt, s')"
  shows "polled s s'"
    and "nxt \<noteq> None \<Longrightarrow> is_error s' = is_error s"
    and "nxt \<noteq> None \<Longrightarrow> \<exists>used. m_selects (multi_of s) = used @ m_selects (multi_of s')"
    and "nxt = None \<Longrightarrow> c_eof (is_data s') \<or>
           (\<exists>r. m_selects (multi_of s) = r # m_selects (multi_of s') \<and> select_value r \<le> 0)"
    and "is_error s' \<noteq> is_error s \<Longrightarrow> nxt = None \<and> c_eof (is_data s') \<and> is_error s' = - 1"
  using read_poll_all [OF assms] by blast+

lemma fill_buffers_skip:
  "c_eof (is_data s) \<or> c_buffers (is_data s) \<noteq> [] \<Longrightarrow> fill_buffers mcode s = Inr (True, s)"
  by (auto simp: fill_buffers.simps [of mcode s])

lemma fill_buffers_props:
  "fill_buffers mcode s = Inr (filled, s') \<Longrightarrow>
     polled s s' \<and>
     (filled \<longrightarrow> (c_eof (is_data s') \<or> c_buffers (is_data s') \<noteq> []) \<and> is_error s' = is_error s) \<and>
     (\<not> filled \<longrightarrow> c_eof (is_data s') \<or>
        (\<exists>used r. m_selects (multi_of s) = used @ r # m_selects (multi_of s') \<and> select_value r \<le> 0)) \<and>
     (is_error s' \<noteq> is_error s \<longrightarrow> \<not> filled \<and> c_eof (is_data s') \<and> is_error s' = - 1)"
proof (induction mcode s arbitrary: filled s' rule: fill_buffers.induct)
  case (1 mcode s)
  show ?case
  proof (cases "\<not> c_eof (is_data s) \<and> c_buffers (is_data s) = []")
    case False
    then have "filled" "s' = s"
      using "1.prems" by (auto simp: fill_buffers.simps [of mcode s])
    then show ?thesis using False by (auto simp: polled_refl)
  next
    case True
    then obtain nxt s1 where rp: "read_poll mcode s = Inr (nxt, s1)"
      using "1.prems" by (auto simp: fill_buffers.simps [of mcode s] split: sum.splits)
    note props = read_poll_props [OF rp]
    show ?thesis
    proof (cases nxt)
      case None
      then have "\<not> filled" "s' = s1"
        using "1.prems" True rp by (auto simp: fill_buffers.simps [of mcode s])
      then show ?thesis
        using props None by (auto intro: exI [of _ "[]"])
    next
      case (Some mcode')
      then have rec: "fill_buffers mcode' s1 = Inr (filled, s')"
        using "1.prems" True rp by (auto simp: fill_buffers.simps [of mcode s])
      have ih: "polled s1 s' \<and>
         (filled \<longrightarrow> (c_eof (is_data s') \<or> c_buffers (is_data s') \<noteq> []) \<and> is_error s' = is_error s1) \<and>
         (\<not> filled \<longrightarrow> c_eof (is_data s') \<or>
            (\<exists>used r. m_selects (multi_of s1) = used @ r # m_selects (multi_of s') \<and> select_value r \<le> 0)) \<and>
         (is_error s' \<noteq> is_error s1 \<longrightarrow> \<not> filled \<and> c_eof (is_data s') \<and> is_error s' = - 1)"
        using "1.IH" [OF True rp _ _ rec] Some by simp
      have e1: "is_error s1 = is_error s"
        using props(2) Some by simp
      obtain used1 where u1: "m_selects (multi_of s) = used1 @ m_selects (multi_of s1)"
        using props(3) Some by auto
      have sel: "\<not> filled \<Longrightarrow> \<not> c_eof (is_data s') \<Longrightarrow>
         \<exists>used r. m_selects (multi_of s) = used @ r # m_selects (multi_of s') \<and> select_value r \<le> 0"
      proof -
        assume "\<not> filled" "\<not> c_eof (is_data s')"
        then obtain used r where "m_selects (multi_of s1) = used @ r # m_selects (multi_of s')"
          and "select_value r \<le> 0"
          using ih by auto
        then have "m_selects (multi_of s) = (used1 @ used) @ r # m_selects (multi_of s')"
          using u1 by simp
        then show ?thesis using \<open>select_value r \<le> 0\<close> by blast
      qed
      show ?thesis
        using ih e1 sel props(1) by (auto intro: polled_trans)
    qed
  qed
qed

section \<open>Copying out of the buffers\<close>

lemma read_from_buffer_step:
  assumes wf: "wf_curl c" and b: "c_buffers c = buf # rest" and sz: "0 < sz"
  shows "read_from_buffer sz rewind_head c =
           Inr (take sz (drop (buf_consumed buf) (buf_data buf)),
                if buf_consumed buf + sz < buf_size buf
                then c\<lparr>c_buffers := buf\<lparr>buf_consumed := buf_consumed buf + sz\<rparr> # rest\<rparr>
                else if rewind_head
                then c\<lparr>c_buffers := rest,
                       c_rewind := c_rewind c @ [buf\<lparr>buf_consumed := buf_size buf\<rparr>]\<rparr>
                else c\<lparr>c_buffers := rest\<rparr>)"
proof -
  have inv: "0 < buf_size buf" "buf_size buf = length (buf_data buf)" "buf_consumed buf < buf_size buf"
    using wf b by (auto simp: wf_curl_def wf_buffer_def)
  show ?thesis
  proof (cases "buf_consumed buf + sz < buf_size buf")
    case True
    then have "min sz (buf_size buf - buf_consumed buf) = sz" by simp
    then show ?thesis
      using True inv b by (simp add: read_from_buffer_def consume_buffer_def)
  next
    case False
    then have m: "min sz (buf_size buf - buf_consumed buf) = buf_size buf - buf_consumed buf"
      by simp
    have "take sz (drop (buf_consumed buf) (buf_data buf))
            = take (buf_size buf - buf_consumed buf) (drop (buf_consumed buf) (buf_data buf))"
      using False inv by simp
    then show ?thesis
      using False inv b m by (simp add: read_from_buffer_def consume_buffer_def)
  qed
qed

lemma copied_refl: "wf_curl c \<Longrightarrow> copied rewind_head c [] c"
  by (simp add: copied_def)

lemma copied_trans:
  assumes "copied rewind_head c out1 c1" and "copied rewind_head c1 out2 c2"
  shows "copied rewind_head c (out1 @ out2) c2"
proof -
  have frame: "c2 = c\<lparr>c_buffers := c_buffers c2, c_rewind := c_rewind c2\<rparr>"
  proof -
    have "c2 = c1\<lparr>c_buffers := c_buffers c2, c_rewind := c_rewind c2\<rparr>"
      using assms(2) by (simp add: copied_def)
    also have "c1 = c\<lparr>c_buffers := c_buffers c1, c_rewind := c_rewind c1\<rparr>"
      using assms(1) by (simp add: copied_def)
    finally show ?thesis by simp
  qed
  have basics: "wf_curl c2" "queued c = (out1 @ out2) @ queued c2"
    "c_buffers c = [] \<longrightarrow> c_buffers c2 = []"
    using assms by (simp_all add: copied_def)
  show ?thesis
  proof (cases rewind_head)
    case True
    then show ?thesis
      using assms frame by (simp add: copied_def)
  next
    case False
    have r: "c_rewind c2 = c_rewind c"
      using assms False by (simp add: copied_def)
    have d1: "(first_consumed (c_buffers c1) = first_consumed (c_buffers c) + length out1 \<and>
               first_taken (c_buffers c1) = first_taken (c_buffers c) @ out1) \<or>
              first_consumed (c_buffers c1) < first_consumed (c_buffers c) + length out1"
      using assms(1) False by (simp add: copied_def)
    have d2: "(first_consumed (c_buffers c2) = first_consumed (c_buffers c1) + length out2 \<and>
               first_taken (c_buffers c2) = first_taken (c_buffers c1) @ out2) \<or>
              first_consumed (c_buffers c2) < first_consumed (c_buffers c1) + length out2"
      using assms(2) False by (simp add: copied_def)
    have d: "(first_consumed (c_buffers c2) = first_consumed (c_buffers c) + length (out1 @ out2) \<and>
               first_taken (c_buffers c2) = first_taken (c_buffers c) @ out1 @ out2) \<or>
              first_consumed (c_buffers c2) < first_consumed (c_buffers c) + length (out1 @ out2)"
      using d1 d2 by auto
    show ?thesis
      unfolding copied_def using basics frame False r d by simp
  qed
qed

lemma copied_step:
  assumes wf: "wf_curl c" and b: "c_buffers c = buf # rest" and sz: "0 < sz"
    and r: "read_from_buffer sz rewind_head c = Inr (bytes, c1)"
  shows "copied rewind_head c bytes c1"
proof -
  have inv: "0 < buf_size buf" "buf_size buf = length (buf_data buf)" "buf_consumed buf < buf_size buf"
    using wf b by (auto simp: wf_curl_def wf_buffer_def)
  have rest_wf: "list_all (\<lambda>b. wf_buffer b \<and> buf_consumed b < buf_size b) rest"
    "list_all (\<lambda>b. buf_consumed b = 0) rest"
    "list_all (\<lambda>b. wf_buffer b \<and> buf_consumed b = buf_size b) (c_rewind c)"
    "wf_buffer buf"
    using wf b by (simp_all add: wf_curl_def)
  have rest_first: "first_consumed rest = 0" "first_taken rest = []"
    using rest_wf(2) by (cases rest; simp add: first_consumed_def first_taken_def)+
  have rest_tl: "list_all (\<lambda>b. buf_consumed b = 0) (tl rest)"
    using rest_wf(2) by (cases rest) simp_all
  note step = read_from_buffer_step [OF wf b sz, of rewind_head]
  show ?thesis
  proof (cases "buf_consumed buf + sz < buf_size buf")
    case True
    then have res: "bytes = take sz (drop (buf_consumed buf) (buf_data buf))"
      "c1 = c\<lparr>c_buffers := buf\<lparr>buf_consumed := buf_consumed buf + sz\<rparr> # rest\<rparr>"
      using step r by simp_all
    have len: "length bytes = sz"
      using True inv res(1) by simp
    have dd: "drop (buf_consumed buf + sz) (buf_data buf)
                = drop sz (drop (buf_consumed buf) (buf_data buf))"
      by (simp add: add.commute)
    have q: "queued c = bytes @ queued c1"
      using b unfolding res queued_def by (simp add: dd del: drop_drop)
    have t: "take (buf_consumed buf + sz) (buf_data buf) = take (buf_consumed buf) (buf_data buf) @ bytes"
      by (simp add: res(1) take_add)
    have w1: "wf_curl c1"
      using rest_wf True by (auto simp: res(2) wf_curl_def wf_buffer_def)
    show ?thesis
      unfolding copied_def
      using q w1 t len b by (simp add: res(2) first_taken_def first_consumed_def)
  next
    case False
    then have bytes: "bytes = drop (buf_consumed buf) (buf_data buf)"
      using step r inv by simp
    have len: "0 < length bytes"
      using inv bytes by simp
    have whole: "take (buf_consumed buf) (buf_data buf) @ bytes = buf_data buf"
      by (simp add: bytes)
    show ?thesis
    proof (cases rewind_head)
      case True
      then have c1: "c1 = c\<lparr>c_buffers := rest,
                       c_rewind := c_rewind c @ [buf\<lparr>buf_consumed := buf_size buf\<rparr>]\<rparr>"
        using step r False by simp
      have w1: "wf_curl c1"
        using rest_wf rest_tl inv by (auto simp: c1 wf_curl_def wf_buffer_def)
      have q: "queued c = bytes @ queued c1"
        using b by (simp add: c1 bytes queued_def)
      show ?thesis
        unfolding copied_def
        using q w1 True b whole rest_first by (simp add: c1 first_taken_def)
    next
      case nr: False
      then have c1: "c1 = c\<lparr>c_buffers := rest\<rparr>"
        using step r False by simp
      have w1: "wf_curl c1"
        using rest_wf rest_tl by (auto simp: c1 wf_curl_def)
      have q: "queued c = bytes @ queued c1"
        using b by (simp add: c1 bytes queued_def)
      show ?thesis
        unfolding copied_def
        using q w1 nr b len rest_first by (simp add: c1)
    qed
  qed
qed

lemma copy_loop_empty: "c_buffers c = [] \<Longrightarrow> copy_loop sz rewind_head c = Inr ([], c)"
  by (simp add: copy_loop.simps [of sz rewind_head c])

lemma copy_loop_zero: "copy_loop 0 rewind_head c = Inr ([], c)"
  by (simp add: copy_loop.simps [of 0 rewind_head c])

lemma copy_loop_copied:
  "wf_curl c \<Longrightarrow>
     \<exists>c'. copy_loop sz rewind_head c = Inr (take sz (queued c), c') \<and>
          copied rewind_head c (take sz (queued c)) c'"
proof (induction sz rewind_head c rule: copy_loop.induct)
  case (1 sz rewind_head c)
  show ?case
  proof (cases "sz > 0 \<and> c_buffers c \<noteq> []")
    case False
    then have cl: "copy_loop sz rewind_head c = Inr ([], c)"
      by (auto simp: copy_loop_empty copy_loop_zero)
    have tk: "take sz (queued c) = []"
      using False by (auto simp: queued_def)
    show ?thesis
      unfolding tk using cl "1.prems" by (simp add: copied_refl)
  next
    case True
    then obtain buf rest where b: "c_buffers c = buf # rest"
      by (cases "c_buffers c") auto
    have sz: "0 < sz" using True by simp
    obtain bytes c1 where r: "read_from_buffer sz rewind_head c = Inr (bytes, c1)"
      using read_from_buffer_step [OF "1.prems" b sz, of rewind_head] by simp
    have bytes: "bytes = take sz (drop (buf_consumed buf) (buf_data buf))"
      using read_from_buffer_step [OF "1.prems" b sz, of rewind_head] r by simp
    have st: "copied rewind_head c bytes c1"
      using copied_step [OF "1.prems" b sz r] .
    then have w1: "wf_curl c1" and q: "queued c = bytes @ queued c1"
      by (simp_all add: copied_def)
    obtain c' where rec: "copy_loop (sz - length bytes) rewind_head c1
          = Inr (take (sz - length bytes) (queued c1), c')"
      and cp: "copied rewind_head c1 (take (sz - length bytes) (queued c1)) c'"
      using "1.IH" [OF True r refl w1] by auto
    have tk: "take sz (queued c) = bytes @ take (sz - length bytes) (queued c1)"
      using q bytes by simp
    have "copy_loop sz rewind_head c = Inr (take sz (queued c), c')"
      using True r rec tk by (simp add: copy_loop.simps [of sz rewind_head c])
    moreover have "copied rewind_head c (take sz (queued c)) c'"
      using copied_trans [OF st cp] tk by simp
    ultimately show ?thesis by blast
  qed
qed

section \<open>One read\<close>

lemma read_cases:
  assumes wf: "wf_curl (is_data s)" and r: "input_curl_read s n = Inr (out, s')"
  obtains (stopped) "fill_buffers CURLM_CALL_MULTI_PERFORM s = Inr (False, s')" and "out = []"
  | (copied) s1 c2 where "fill_buffers CURLM_CALL_MULTI_PERFORM s = Inr (True, s1)"
      and "out = take n (queued (is_data s1))"
      and "copied (c_rewind (is_data s1) \<noteq> [] \<or> is_offset s1 = 0) (is_data s1) out c2"
      and "s' = s1\<lparr>is_offset := is_offset s1 + int (length out),
                    is_data := (if (c_rewind (is_data s1) \<noteq> [] \<or> is_offset s1 = 0)
                                   \<and> is_offset s1 + int (length out) > max_rewind_size
                                then c2\<lparr>c_rewind := []\<rparr> else c2)\<rparr>"
proof -
  obtain filled s1 where f: "fill_buffers CURLM_CALL_MULTI_PERFORM s = Inr (filled, s1)"
    using r by (auto simp: input_curl_read_def split: sum.splits)
  show thesis
  proof (cases filled)
    case False
    then have "out = []" "s' = s1"
      using r f by (simp_all add: input_curl_read_def)
    then show thesis using stopped f False by simp
  next
    case True
    have w1: "wf_curl (is_data s1)"
      using fill_buffers_props [OF f] wf by (simp add: polled_def)
    let ?rh = "c_rewind (is_data s1) \<noteq> [] \<or> is_offset s1 = 0"
    obtain c2 where cl: "copy_loop n ?rh (is_data s1) = Inr (take n (queued (is_data s1)), c2)"
      and cp: "copied ?rh (is_data s1) (take n (queued (is_data s1))) c2"
      using copy_loop_copied [OF w1, of n ?rh] by blast
    have eq: "input_curl_read s n =
        Inr (take n (queued (is_data s1)),
             s1\<lparr>is_offset := is_offset s1 + int (length (take n (queued (is_data s1)))),
                is_data := (if ?rh \<and> is_offset s1 + int (length (take n (queued (is_data s1))))
                                      > max_rewind_size
                            then c2\<lparr>c_rewind := []\<rparr> else c2)\<rparr>)"
      unfolding input_curl_read_def Let_def f using True cl by auto
    have o: "out = take n (queued (is_data s1))"
      using r eq by simp
    have "s' = s1\<lparr>is_offset := is_offset s1 + int (length out),
                    is_data := (if ?rh \<and> is_offset s1 + int (length out) > max_rewind_size
                                then c2\<lparr>c_rewind := []\<rparr> else c2)\<rparr>"
      using r eq unfolding o by simp
    then show thesis using copied f True o cp by simp
  qed
qed

lemma copied_multi: "copied rewind_head c out c' \<Longrightarrow> c_multi c' = c_multi c \<and> c_eof c' = c_eof c"
proof -
  assume "copied rewind_head c out c'"
  then have "c' = c\<lparr>c_buffers := c_buffers c', c_rewind := c_rewind c'\<rparr>"
    by (simp add: copied_def)
  then have "c_multi c' = c_multi (c\<lparr>c_buffers := c_buffers c', c_rewind := c_rewind c'\<rparr>)"
    "c_eof c' = c_eof (c\<lparr>c_buffers := c_buffers c', c_rewind := c_rewind c'\<rparr>)"
    by simp_all
  then show ?thesis by simp
qed

lemma wf_curl_clear_rewind: "wf_curl c \<Longrightarrow> wf_curl (c\<lparr>c_rewind := []\<rparr>)"
  by (simp add: wf_curl_def)

lemma read_props:
  assumes wf: "wf_curl (is_data s)" and r: "input_curl_read s n = Inr (out, s')"
  shows "remaining s = out @ remaining s'"
    and "is_offset s' = is_offset s + int (length out)"
    and "wf_curl (is_data s')"
    and "length out \<le> n"
    and "m_starts (multi_of s') = m_starts (multi_of s)"
proof -
  have "remaining s = out @ remaining s' \<and> is_offset s' = is_offset s + int (length out) \<and>
        wf_curl (is_data s') \<and> length out \<le> n \<and> m_starts (multi_of s') = m_starts (multi_of s)"
    using wf r
  proof (cases rule: read_cases)
    case stopped
    then show ?thesis
      using fill_buffers_props [OF stopped(1)] wf by (simp add: polled_def)
  next
    case (copied s1 c2)
    note p = fill_buffers_props [OF copied(1)]
    have m: "c_multi c2 = multi_of s1"
      using copied_multi [OF copied(3)] by simp
    have q: "queued (is_data s1) = out @ queued c2" and w2: "wf_curl c2"
      using copied(3) by (simp_all add: copied_def)
    have rem1: "remaining s1 = out @ remaining s'"
      by (simp add: remaining_def copied(4) q m)
    have rem: "remaining s = out @ remaining s'"
      using p rem1 by (simp add: polled_def)
    have off: "is_offset s' = is_offset s + int (length out)"
      using p by (simp add: polled_def copied(4))
    have w': "wf_curl (is_data s')"
      using w2 by (simp add: copied(4) wf_curl_clear_rewind)
    have len: "length out \<le> n"
      by (simp add: copied(2))
    have st: "m_starts (multi_of s') = m_starts (multi_of s)"
      using p m by (simp add: polled_def copied(4))
    show ?thesis
      using rem off w' len st by simp
  qed
  then show "remaining s = out @ remaining s'"
    and "is_offset s' = is_offset s + int (length out)"
    and "wf_curl (is_data s')"
    and "length out \<le> n"
    and "m_starts (multi_of s') = m_starts (multi_of s)"
    by simp_all
qed

section \<open>What the engine delivered\<close>

lemma engine_body_append: "engine_body (a @ b) = engine_body a @ engine_body b"
  by (simp add: engine_body_def)

lemma fed_refl: "fed s s"
  by (auto simp: fed_def engine_body_def intro: exI [of _ "[]"])

lemma fed_trans:
  assumes "fed s s1" and "fed s1 s2"
  shows "fed s s2"
proof -
  obtain u1 where u1: "m_performs (multi_of s) = u1 @ m_performs (multi_of s1)"
    "queued (is_data s1) = queued (is_data s) @ engine_body u1"
    using assms(1) by (auto simp: fed_def)
  obtain u2 where u2: "m_performs (multi_of s1) = u2 @ m_performs (multi_of s2)"
    "queued (is_data s2) = queued (is_data s1) @ engine_body u2"
    using assms(2) by (auto simp: fed_def)
  have "m_performs (multi_of s) = (u1 @ u2) @ m_performs (multi_of s2)"
    "queued (is_data s2) = queued (is_data s) @ engine_body (u1 @ u2)"
    using u1 u2 by (simp_all add: engine_body_append)
  then show ?thesis unfolding fed_def by blast
qed

lemma fed_same:
  "m_performs (multi_of s') = m_performs (multi_of s) \<Longrightarrow>
   queued (is_data s') = queued (is_data s) \<Longrightarrow> fed s s'"
  by (auto simp: fed_def engine_body_def intro: exI [of _ "[]"])

lemma fed_delivered:
  assumes "fed s s'"
  shows "queued (is_data s') = queued (is_data s) @ delivered s s'"
proof -
  obtain used where u: "m_performs (multi_of s) = used @ m_performs (multi_of s')"
    "queued (is_data s') = queued (is_data s) @ engine_body used"
    using assms by (auto simp: fed_def)
  have "take (length (m_performs (multi_of s)) - length (m_performs (multi_of s')))
          (m_performs (multi_of s)) = used"
    by (simp add: u(1))
  then show ?thesis by (simp add: delivered_def u(2))
qed

lemma perform_fed:
  assumes "curl_multi_perform s = Inr (mcode, s')"
  shows "fed s s'"
proof -
  from assms obtain r rs where r: "m_performs (multi_of s) = r # rs"
    and s': "s' = foldl run_callback
                (set_multi ((multi_of s)\<lparr>m_performs := rs,
                                         m_msgs := m_msgs (multi_of s) @ pr_msgs r\<rparr>) s)
                (pr_callbacks r)"
    by (rule perform_cases)
  have "m_performs (multi_of s) = [r] @ m_performs (multi_of s')"
    by (simp add: r s' foldl_run_callback_multi)
  moreover have "queued (is_data s') = queued (is_data s) @ engine_body [r]"
    by (simp add: s' foldl_run_callback_queued engine_body_def)
  ultimately show ?thesis unfolding fed_def by blast
qed

lemma select_fed: "input_curl_select s = Inr (ret, s') \<Longrightarrow> fed s s'"
  by (erule select_cases) (simp add: fed_same)

lemma info_read_buffers:
  "c_buffers (is_data (snd (input_curl_multi_info_read s))) = c_buffers (is_data s)"
proof (induction s rule: input_curl_multi_info_read.induct)
  case (1 s)
  show ?case
  proof (cases "m_msgs (multi_of s)")
    case Nil
    then show ?thesis by (simp add: input_curl_multi_info_read.simps [of s])
  next
    case (Cons msg q)
    then show ?thesis
      using "1.IH"
      by (cases msg) (auto simp: input_curl_multi_info_read.simps [of s])
  qed
qed

lemma info_read_fed: "fed s (snd (input_curl_multi_info_read s))"
  by (rule fed_same) (simp_all add: info_read_performs info_read_buffers queued_def)

lemma read_poll_fed:
  assumes "read_poll mcode s = Inr (nxt, s')"
  shows "fed s s'"
proof -
  obtain ret s1 where w:
    "(if mcode \<noteq> CURLM_CALL_MULTI_PERFORM then input_curl_select s else Inr (1, s)) = Inr (ret, s1)"
    using assms by (auto simp: read_poll_alt split: sum.splits)
  have w_fed: "fed s s1"
    using w by (auto split: if_splits intro: select_fed fed_refl)
  show ?thesis
  proof (cases "mcode \<noteq> CURLM_CALL_MULTI_PERFORM \<and> ret \<le> 0")
    case True
    then have "s' = s1"
      using assms w by (auto simp: read_poll_alt)
    then show ?thesis using w_fed by simp
  next
    case False
    then obtain mcode' s2 where p: "curl_multi_perform s1 = Inr (mcode', s2)"
      using assms w by (auto simp: read_poll_alt split: sum.splits if_splits)
    have p_fed: "fed s s2"
      using w_fed perform_fed [OF p] by (rule fed_trans)
    show ?thesis
    proof (cases "mcode' \<noteq> CURLM_OK \<and> mcode' \<noteq> CURLM_CALL_MULTI_PERFORM")
      case True
      then have "s' = set_eof True s2"
        using assms w p False by (auto simp: read_poll_alt)
      moreover have "fed s2 (set_eof True s2)"
        by (rule fed_same) simp_all
      ultimately show ?thesis using p_fed by (auto intro: fed_trans)
    next
      case ok: False
      have "s' = snd (input_curl_multi_info_read s2)"
        using assms w p False ok by (auto simp: read_poll_alt split: if_splits prod.splits)
      then show ?thesis
        using p_fed info_read_fed [of s2] by (auto intro: fed_trans)
    qed
  qed
qed

lemma fill_buffers_fed: "fill_buffers mcode s = Inr (filled, s') \<Longrightarrow> fed s s'"
proof (induction mcode s arbitrary: filled s' rule: fill_buffers.induct)
  case (1 mcode s)
  show ?case
  proof (cases "\<not> c_eof (is_data s) \<and> c_buffers (is_data s) = []")
    case False
    then have "s' = s"
      using "1.prems" by (auto simp: fill_buffers.simps [of mcode s])
    then show ?thesis by (simp add: fed_refl)
  next
    case True
    then obtain nxt s1 where rp: "read_poll mcode s = Inr (nxt, s1)"
      using "1.prems" by (auto simp: fill_buffers.simps [of mcode s] split: sum.splits)
    show ?thesis
    proof (cases nxt)
      case None
      then have "s' = s1"
        using "1.prems" True rp by (auto simp: fill_buffers.simps [of mcode s])
      then show ?thesis using read_poll_fed [OF rp] by simp
    next
      case (Some mcode')
      then have rec: "fill_buffers mcode' s1 = Inr (filled, s')"
        using "1.prems" True rp by (auto simp: fill_buffers.simps [of mcode s])
      have "fed s1 s'"
        using "1.IH" [OF True rp _ _ rec] Some by simp
      then show ?thesis using read_poll_fed [OF rp] by (auto intro: fed_trans)
    qed
  qed
qed

lemma read_fed:
  assumes wf: "wf_curl (is_data s)" and r: "input_curl_read s n = Inr (out, s')"
  shows "\<exists>used. m_performs (multi_of s) = used @ m_performs (multi_of s') \<and>
                out @ queued (is_data s') = queued (is_data s) @ engine_body used"
  using wf r
proof (cases rule: read_cases)
  case stopped
  then show ?thesis
    using fill_buffers_fed [OF stopped(1)] by (auto simp: fed_def)
next
  case (copied s1 c2)
  have m: "c_multi c2 = multi_of s1"
    using copied_multi [OF copied(3)] by simp
  have q: "queued (is_data s1) = out @ queued c2"
    using copied(3) by (simp add: copied_def)
  obtain used where u: "m_performs (multi_of s) = used @ m_performs (multi_of s1)"
    "queued (is_data s1) = queued (is_data s) @ engine_body used"
    using fill_buffers_fed [OF copied(1)] by (auto simp: fed_def)
  have "m_performs (multi_of s) = used @ m_performs (multi_of s')"
    using u(1) m by (simp add: copied(4))
  moreover have "out @ queued (is_data s') = queued (is_data s) @ engine_body used"
    using u(2) q by (simp add: copied(4))
  ultimately show ?thesis by blast
qed

section \<open>A run of reads\<close>

lemma read_all_fed:
  "wf_curl (is_data s) \<Longrightarrow> read_all s ns = Inr (tr, s') \<Longrightarrow>
     fed s (s'\<lparr>is_data := (is_data s')\<lparr>c_buffers :=
            \<lparr>buf_size = length (concat (map fst tr)), buf_consumed = 0,
             buf_data = concat (map fst tr)\<rparr> # c_buffers (is_data s')\<rparr>\<rparr>) \<and>
     offsets_ok (is_offset s) tr \<and>
     list_all2 (\<lambda>out n. length (fst out) \<le> n) tr ns \<and>
     is_offset s' = is_offset s + int (length (concat (map fst tr))) \<and>
     m_starts (multi_of s') = m_starts (multi_of s) \<and>
     wf_curl (is_data s')"
proof (induction ns arbitrary: s tr)
  case Nil
  then show ?case by (auto simp: fed_def engine_body_def queued_def intro: exI [of _ "[]"])
next
  case (Cons n ns)
  obtain out s1 where r: "input_curl_read s n = Inr (out, s1)"
    using Cons.prems(2) by (auto split: sum.splits)
  obtain tr1 where rest: "read_all s1 ns = Inr (tr1, s')" and tr: "tr = (out, is_offset s1) # tr1"
    using Cons.prems(2) r by (auto split: sum.splits)
  note rp = read_props [OF Cons.prems(1) r]
  note ih = Cons.IH [OF rp(3) rest]
  obtain u1 where u1: "m_performs (multi_of s) = u1 @ m_performs (multi_of s1)"
    "out @ queued (is_data s1) = queued (is_data s) @ engine_body u1"
    using read_fed [OF Cons.prems(1) r] by blast
  obtain u2 where u2: "m_performs (multi_of s1) = u2 @ m_performs (multi_of s')"
    "concat (map fst tr1) @ queued (is_data s') = queued (is_data s1) @ engine_body u2"
    using ih by (auto simp: fed_def queued_def)
  have "m_performs (multi_of s) = (u1 @ u2) @ m_performs (multi_of s')"
    using u1 u2 by simp
  moreover have "concat (map fst tr) @ queued (is_data s') = queued (is_data s) @ engine_body (u1 @ u2)"
  proof -
    have "concat (map fst tr) @ queued (is_data s') = out @ queued (is_data s1) @ engine_body u2"
      using u2(2) by (simp add: tr)
    also have "\<dots> = queued (is_data s) @ engine_body u1 @ engine_body u2"
      using u1(2) by (metis append.assoc)
    finally show ?thesis by (simp add: engine_body_append)
  qed
  ultimately have f: "fed s (s'\<lparr>is_data := (is_data s')\<lparr>c_buffers :=
            \<lparr>buf_size = length (concat (map fst tr)), buf_consumed = 0,
             buf_data = concat (map fst tr)\<rparr> # c_buffers (is_data s')\<rparr>\<rparr>)"
    unfolding fed_def by (intro exI [of _ "u1 @ u2"]) (simp add: queued_def)
  show ?case
    using f ih rp by (simp add: tr)
qed

section \<open>Reading at the end of the transfer\<close>

lemma wf_queued_empty: "wf_curl c \<Longrightarrow> queued c = [] \<longleftrightarrow> c_buffers c = []"
  by (cases "c_buffers c") (auto simp: wf_curl_def wf_buffer_def queued_def)

lemma read_eof:
  assumes wf: "wf_curl (is_data s)" and e: "c_eof (is_data s)"
  shows "\<exists>s'. input_curl_read s n = Inr (take n (queued (is_data s)), s') \<and>
              queued (is_data s') = drop n (queued (is_data s)) \<and>
              wf_curl (is_data s') \<and> c_eof (is_data s') \<and>
              is_error s' = is_error s \<and> multi_of s' = multi_of s \<and>
              is_offset s' = is_offset s + int (length (take n (queued (is_data s))))"
proof -
  let ?rh = "c_rewind (is_data s) \<noteq> [] \<or> is_offset s = 0"
  let ?out = "take n (queued (is_data s))"
  have f: "fill_buffers CURLM_CALL_MULTI_PERFORM s = Inr (True, s)"
    using e by (simp add: fill_buffers_skip)
  obtain c2 where cl: "copy_loop n ?rh (is_data s) = Inr (?out, c2)"
    and cp: "copied ?rh (is_data s) ?out c2"
    using copy_loop_copied [OF wf, of n ?rh] by blast
  let ?s' = "s\<lparr>is_offset := is_offset s + int (length ?out),
                is_data := (if ?rh \<and> is_offset s + int (length ?out) > max_rewind_size
                            then c2\<lparr>c_rewind := []\<rparr> else c2)\<rparr>"
  have r: "input_curl_read s n = Inr (?out, ?s')"
    unfolding input_curl_read_def Let_def f using cl by auto
  have q: "queued (is_data s) = ?out @ queued c2" and w2: "wf_curl c2"
    using cp by (simp_all add: copied_def)
  have q2: "queued c2 = drop n (queued (is_data s))"
    using q by (metis append_take_drop_id same_append_eq)
  have m: "c_multi c2 = multi_of s" "c_eof c2 = c_eof (is_data s)"
    using copied_multi [OF cp] by simp_all
  show ?thesis
    using r q2 w2 m e by (intro exI [of _ ?s']) (simp add: wf_curl_clear_rewind)
qed

lemma read_all_eof:
  "wf_curl (is_data s) \<Longrightarrow> c_eof (is_data s) \<Longrightarrow>
     \<exists>tr s'. read_all s ns = Inr (tr, s') \<and>
            concat (map fst tr) = take (sum_list ns) (queued (is_data s)) \<and>
            c_eof (is_data s') \<and> is_error s' = is_error s \<and> multi_of s' = multi_of s"
proof (induction ns arbitrary: s)
  case Nil
  then show ?case by simp
next
  case (Cons n ns)
  obtain s1 where r: "input_curl_read s n = Inr (take n (queued (is_data s)), s1)"
    and q1: "queued (is_data s1) = drop n (queued (is_data s))"
    and s1: "wf_curl (is_data s1)" "c_eof (is_data s1)"
    and f1: "is_error s1 = is_error s" "multi_of s1 = multi_of s"
    using read_eof [OF Cons.prems, of n] by blast
  obtain tr s' where rest: "read_all s1 ns = Inr (tr, s')"
    and c: "concat (map fst tr) = take (sum_list ns) (queued (is_data s1))"
    and f: "c_eof (is_data s')" "is_error s' = is_error s1" "multi_of s' = multi_of s1"
    using Cons.IH [OF s1] by blast
  let ?tr = "(take n (queued (is_data s)), is_offset s1) # tr"
  have ra: "read_all s (n # ns) = Inr (?tr, s')"
    using r rest by simp
  have cc: "concat (map fst ?tr) = take (sum_list (n # ns)) (queued (is_data s))"
    using c q1 by (simp add: take_add)
  have "read_all s (n # ns) = Inr (?tr, s') \<and>
        concat (map fst ?tr) = take (sum_list (n # ns)) (queued (is_data s)) \<and>
        c_eof (is_data s') \<and> is_error s' = is_error s \<and> multi_of s' = multi_of s"
    using ra cc f f1 by simp
  then show ?case by blast
qed

section \<open>Seeking\<close>

text \<open>
  The addition on \<^verbatim>\<open>off_t\<close> is the addition of integers as long as the sum fits;
  past the largest offset it yields a negative target, and the seek fails.
\<close>

lemma off_t_add_in_range:
  "- 9223372036854775808 \<le> a + b \<Longrightarrow> a + b < 9223372036854775808 \<Longrightarrow> off_t_add a b = a + b"
  by (simp add: off_t_add_def)

lemma seek_overflow:
  "input_curl_seek (half_read_stream\<lparr>is_seekable := True\<rparr>) 9223372036854775807 SEEK_CUR
     = Inr (False, half_read_stream\<lparr>is_seekable := True\<rparr>)"
  by code_simp

lemma consume_buffer_frame:
  "consume_buffer len rewind_head c = Inr c' \<Longrightarrow>
     c' = c\<lparr>c_buffers := c_buffers c', c_rewind := c_rewind c'\<rparr>"
  by (auto simp: consume_buffer_def split: list.splits if_splits)

lemma fast_forward_frame:
  "fast_forward target s = Inr s1 \<Longrightarrow>
     s1 = s\<lparr>is_offset := is_offset s1,
            is_data := (is_data s)\<lparr>c_buffers := c_buffers (is_data s1),
                                    c_rewind := c_rewind (is_data s1)\<rparr>\<rparr>"
proof (induction target s arbitrary: s1 rule: fast_forward.induct)
  case (1 target s)
  show ?case
  proof (cases "c_buffers (is_data s)")
    case Nil
    then have "s1 = s"
      using "1.prems" by (simp add: fast_forward.simps [of target s])
    then show ?thesis by simp
  next
    case (Cons buf rest)
    show ?thesis
    proof (cases "target > is_offset s")
      case False
      then have "s1 = s"
        using "1.prems" Cons by (simp add: fast_forward.simps [of target s])
      then show ?thesis by simp
    next
      case True
      let ?rh = "c_rewind (is_data s) \<noteq> [] \<or> is_offset s = 0"
      obtain c' where cb: "consume_buffer (skip_length target s buf) ?rh (is_data s) = Inr c'"
        using "1.prems" Cons True
        by (auto simp: fast_forward.simps [of target s] split: sum.splits)
      let ?s' = "s\<lparr>is_offset := is_offset s + int (skip_length target s buf), is_data := c'\<rparr>"
      have rec: "fast_forward target ?s' = Inr s1"
        using "1.prems" Cons True cb by (simp add: fast_forward.simps [of target s])
      have ih: "s1 = ?s'\<lparr>is_offset := is_offset s1,
            is_data := (is_data ?s')\<lparr>c_buffers := c_buffers (is_data s1),
                                    c_rewind := c_rewind (is_data s1)\<rparr>\<rparr>"
        using "1.IH" [OF Cons _ cb rec] True by simp
      have eq: "c' = (is_data s)\<lparr>c_buffers := c_buffers c', c_rewind := c_rewind c'\<rparr>"
        using consume_buffer_frame [OF cb] .
      have "c'\<lparr>c_buffers := c_buffers (is_data s1), c_rewind := c_rewind (is_data s1)\<rparr>
                 = (is_data s)\<lparr>c_buffers := c_buffers (is_data s1), c_rewind := c_rewind (is_data s1)\<rparr>"
        by (subst eq) simp
      then show ?thesis using ih by simp
    qed
  qed
qed

lemma fast_forward_fields:
  assumes "fast_forward target s = Inr s1"
  shows "multi_of s1 = multi_of s" "is_size s1 = is_size s" "is_seekable s1 = is_seekable s"
    "is_error s1 = is_error s" "c_eof (is_data s1) = c_eof (is_data s)"
    "c_easy (is_data s1) = c_easy (is_data s)"
proof -
  note f = fast_forward_frame [OF assms]
  show "multi_of s1 = multi_of s" by (subst f) simp
  show "is_size s1 = is_size s" by (subst f) simp
  show "is_seekable s1 = is_seekable s" by (subst f) simp
  show "is_error s1 = is_error s" by (subst f) simp
  show "c_eof (is_data s1) = c_eof (is_data s)" by (subst f) simp
  show "c_easy (is_data s1) = c_easy (is_data s)" by (subst f) simp
qed

lemma send_request_props:
  "input_curl_send_request s = Inr (sent, s') \<Longrightarrow> polled s s' \<and> fed s s'"
proof (induction s arbitrary: sent s' rule: input_curl_send_request.induct)
  case (1 s)
  obtain mcode s1 where p: "curl_multi_perform s = Inr (mcode, s1)"
    using "1.prems" by (auto simp: input_curl_send_request.simps [of s] split: sum.splits)
  note step = perform_polled [OF p] perform_fed [OF p]
  show ?case
  proof (cases "mcode = CURLM_CALL_MULTI_PERFORM")
    case True
    then have "input_curl_send_request s1 = Inr (sent, s')"
      using "1.prems" p by (simp add: input_curl_send_request.simps [of s])
    then have "polled s1 s' \<and> fed s1 s'"
      using "1.IH" [OF p refl True] by simp
    then show ?thesis using step by (auto intro: polled_trans fed_trans)
  next
    case False
    then have "s' = s1"
      using "1.prems" p by (simp add: input_curl_send_request.simps [of s])
    then show ?thesis using step by simp
  qed
qed

lemma delivered_cong:
  "m_performs (multi_of a) = m_performs (multi_of b) \<Longrightarrow> delivered a x = delivered b x"
  by (simp add: delivered_def)

text \<open>
  The reconnect path of \<^verbatim>\<open>input_curl_seek\<close>: the stream is seekable, the target is
  computed and not negative, the request is not a no-op or a rewind, and the
  fast-forward loop ends in \<open>s1\<close> short of the target. What follows
  \<^verbatim>\<open>input_curl_easy_free\<close> and the assignment of \<^verbatim>\<open>is->offset\<close>:
\<close>

lemma seek_reconnect:
  assumes "is_seekable s" and "seek_target s offset whence = Some target" and "0 \<le> target"
    and "\<not> (whence = SEEK_SET \<and> offset = 0 \<and> (is_offset s = 0 \<or> input_curl_can_rewind s))"
    and "fast_forward target s = Inr s1" and "is_offset s1 \<noteq> target"
  shows "input_curl_seek s offset whence =
           (if target = is_size s
            then Inr (True, s1\<lparr>is_offset := target,
                               is_data := (input_curl_easy_free (is_data s1))\<lparr>c_eof := True\<rparr>\<rparr>)
            else
              (case input_curl_easy_init
                      (s1\<lparr>is_offset := target, is_data := input_curl_easy_free (is_data s1)\<rparr>) of
                 Inl e \<Rightarrow> Inl e
               | Inr (ret, s2) \<Rightarrow>
                   if \<not> ret then Inr (False, s2)
                   else
                     (case input_curl_send_request
                             (if is_offset s2 > 0
                              then s2\<lparr>is_data := (is_data s2)
                                     \<lparr>c_range := Some (decimal (nat (is_offset s2)) @ ''-'')\<rparr>\<rparr>
                              else s2) of
                        Inl e \<Rightarrow> Inl e
                      | Inr (sent, s3) \<Rightarrow>
                          if \<not> sent then Inr (False, s3)
                          else Inr (input_curl_multi_info_read s3))))"
proof -
  have sz: "is_size s1 = is_size s"
    using fast_forward_fields(2) [OF assms(5)] .
  have a: "\<not> (whence = SEEK_SET \<and> offset = 0 \<and> is_offset s = 0)"
    and b: "\<not> (whence = SEEK_SET \<and> offset = 0 \<and> input_curl_can_rewind s)"
    using assms(4) by auto
  have c: "\<not> target < 0" and d: "target \<noteq> is_offset s1"
    using assms(3,6) by auto
  show ?thesis
    unfolding input_curl_seek_def
    by (simp only: a b c d sz assms(1,2,5) if_False if_True not_True_eq_False not_False_eq_True
          option.case sum.case)
qed

lemma read_at_end:
  assumes "c_eof (is_data s)" and "c_buffers (is_data s) = []" and rw: "c_rewind (is_data s) = []"
  shows "input_curl_read s n = Inr ([], s)"
proof -
  have f: "fill_buffers CURLM_CALL_MULTI_PERFORM s = Inr (True, s)"
    using assms(1) by (simp add: fill_buffers_skip)
  have e: "(is_data s)\<lparr>c_rewind := []\<rparr> = is_data s"
    using rw by (cases "is_data s") simp
  show ?thesis
    unfolding input_curl_read_def Let_def f
    by (simp add: copy_loop_empty [OF assms(2)] e)
qed

lemma read_all_at_end:
  assumes "c_eof (is_data s)" and "c_buffers (is_data s) = []" and "c_rewind (is_data s) = []"
  shows "read_all s ns = Inr (map (\<lambda>n. ([], is_offset s)) ns, s)"
  by (induction ns) (simp_all add: read_at_end [OF assms])

section \<open>Header lines\<close>

lemma foldl_digits_ge: "acc \<le> foldl (\<lambda>acc ch. acc * 10 + digit_val ch) acc ds"
proof (induction ds arbitrary: acc)
  case Nil
  show ?case by simp
next
  case (Cons d ds)
  have "acc \<le> acc * 10 + digit_val d" by simp
  also have "\<dots> \<le> foldl (\<lambda>acc ch. acc * 10 + digit_val ch) (acc * 10 + digit_val d) ds"
    by (rule Cons.IH)
  finally show ?case by simp
qed

lemma parse_digits_value:
  "list_all is_digit ds \<Longrightarrow>
   foldl (\<lambda>acc ch. acc * 10 + digit_val ch) acc ds \<le> G_MAXUINT64 \<Longrightarrow>
   parse_digits ds acc overflow any =
     (foldl (\<lambda>acc ch. acc * 10 + digit_val ch) acc ds, overflow, any \<or> ds \<noteq> [])"
proof (induction ds arbitrary: acc any)
  case Nil
  show ?case by simp
next
  case (Cons d ds)
  have "acc * 10 + digit_val d \<le> foldl (\<lambda>acc ch. acc * 10 + digit_val ch) (acc * 10 + digit_val d) ds"
    by (rule foldl_digits_ge)
  then have le: "acc * 10 + digit_val d \<le> G_MAXUINT64"
    using Cons.prems(2) by simp
  have no: "\<not> (acc > G_MAXUINT64 div 10 \<or>
               (acc = G_MAXUINT64 div 10 \<and> digit_val d > G_MAXUINT64 mod 10))"
    using le by (simp add: G_MAXUINT64_def)
  show ?case
    using Cons.prems no Cons.IH [of "acc * 10 + digit_val d" True] by auto
qed

lemma digit_not_special:
  assumes "is_digit ch"
  shows "\<not> g_ascii_isspace ch" "\<not> strtoull_isspace ch" "ch \<noteq> CHR 0x00"
    "ch \<noteq> CHR ''-''" "ch \<noteq> CHR ''+''"
  using assms by (auto simp: is_digit_def g_ascii_isspace_def strtoull_isspace_def)

lemma strtoull_digits:
  assumes "ds \<noteq> []" and "list_all is_digit ds" and "decimal_value ds \<le> G_MAXUINT64"
  shows "g_ascii_strtoull ds = word_of_nat (decimal_value ds)"
proof -
  obtain d ds' where ds: "ds = d # ds'"
    using assms(1) by (cases ds) auto
  have d: "is_digit d"
    using assms(2) ds by simp
  have "\<forall>ch \<in> set ds. ch \<noteq> CHR 0x00"
    using assms(2) digit_not_special(3) by (auto simp: list_all_iff)
  then have cs: "c_string ds = ds"
    unfolding c_string_def by (simp add: takeWhile_eq_all_conv)
  have pd: "parse_digits ds 0 False False = (decimal_value ds, False, True)"
    using parse_digits_value [OF assms(2), of 0 False False] assms(1,3)
    by (simp add: decimal_value_def)
  have "g_parse_long_long ds = (decimal_value ds, False)"
    unfolding g_parse_long_long_def Let_def
    using pd digit_not_special [OF d] by (simp add: ds)
  then show ?thesis
    by (simp add: g_ascii_strtoull_def cs)
qed

lemma strtoull_no_number:
  assumes "v = [] \<or> (\<not> is_digit (hd v) \<and> \<not> strtoull_isspace (hd v)
                     \<and> hd v \<noteq> CHR ''-'' \<and> hd v \<noteq> CHR ''+'')"
  shows "g_ascii_strtoull v = 0"
proof (cases "c_string v")
  case Nil
  then show ?thesis
    by (simp add: g_ascii_strtoull_def g_parse_long_long_def)
next
  case (Cons ch s)
  then have "v \<noteq> []" and "hd v = ch"
    by (cases v; simp add: c_string_def split: if_splits)+
  then have "\<not> is_digit ch" "\<not> strtoull_isspace ch" "ch \<noteq> CHR ''-''" "ch \<noteq> CHR ''+''"
    using assms by auto
  then show ?thesis
    by (simp add: g_ascii_strtoull_def g_parse_long_long_def Cons)
qed

lemma lower_content_length: "map ascii_tolower ''content-length'' = ''content-length''"
  by (simp add: ascii_tolower_def char_of_eq_iff)

lemma content_length_name:
  assumes "strcasecmp_eq name ''content-length''"
  shows "CHR '':'' \<notin> set name" and "CHR 0x00 \<notin> set name" and "length name = 14"
    and "\<not> strcasecmp_eq name ''accept-ranges''"
proof -
  have m: "map ascii_tolower name = ''content-length''"
    using assms unfolding strcasecmp_eq_def lower_content_length .
  have mem: "ascii_tolower ch \<in> set ''content-length''" if "ch \<in> set name" for ch
  proof -
    have "ascii_tolower ch \<in> set (map ascii_tolower name)"
      using that by simp
    then show ?thesis by (simp only: m)
  qed
  show "CHR '':'' \<notin> set name"
    using mem [of "CHR '':''"] by (auto simp: ascii_tolower_def)
  show "CHR 0x00 \<notin> set name"
    using mem [of "CHR 0x00"] by (auto simp: ascii_tolower_def)
  have "length (map ascii_tolower name) = length ''content-length''"
    by (simp only: m)
  then show "length name = 14" by simp
  show "\<not> strcasecmp_eq name ''accept-ranges''"
    unfolding strcasecmp_eq_def m by (simp add: ascii_tolower_def char_of_eq_iff)
qed

text \<open>
  A header line \<open>name: value\<close> with white space \<open>ws1\<close> and \<open>ws2\<close> around a value
  that has none at its ends.
\<close>

lemma header_parts:
  assumes colon: "CHR '':'' \<notin> set name" and nul: "CHR 0x00 \<notin> set name"
    and ws: "list_all g_ascii_isspace ws1" "list_all g_ascii_isspace ws2"
    and v: "v \<noteq> []" "\<not> g_ascii_isspace (hd v)" "\<not> g_ascii_isspace (last v)"
  shows "takeWhile (\<lambda>ch. ch \<noteq> CHR '':'') (name @ CHR '':'' # ws1 @ v @ ws2) = name"
    and "header_name (name @ CHR '':'' # ws1 @ v @ ws2) = name"
    and "header_value (name @ CHR '':'' # ws1 @ v @ ws2) = v"
    and "header_end (name @ CHR '':'' # ws1 @ v @ ws2) = Suc (length name) + length ws1 + length v"
proof -
  let ?h = "name @ CHR '':'' # ws1 @ v @ ws2"
  have n: "\<forall>ch \<in> set name. ch \<noteq> CHR '':''"
    using colon by auto
  show tw: "takeWhile (\<lambda>ch. ch \<noteq> CHR '':'') ?h = name"
    using n by (simp add: takeWhile_append2)
  have dw: "dropWhile (\<lambda>ch. ch \<noteq> CHR '':'') ?h = CHR '':'' # ws1 @ v @ ws2"
    using n by (simp add: dropWhile_append2)
  have "\<forall>ch \<in> set name. ch \<noteq> CHR 0x00"
    using nul by auto
  then show "header_name ?h = name"
    unfolding header_name_def tw c_string_def by (simp add: takeWhile_eq_all_conv)
  obtain x xs where vx: "v = x # xs"
    using v(1) by (cases v) auto
  have x: "\<not> g_ascii_isspace x"
    using v(2) vx by simp
  have w1: "\<forall>ch \<in> set ws1. g_ascii_isspace ch" and w2: "\<forall>ch \<in> set (rev ws2). g_ascii_isspace ch"
    using ws by (auto simp: list_all_iff)
  have lead: "dropWhile g_ascii_isspace (ws1 @ v @ ws2) = v @ ws2"
    using w1 x by (simp add: dropWhile_append2 vx)
  have tk: "takeWhile g_ascii_isspace (ws1 @ v @ ws2) = ws1"
    using w1 x by (simp add: takeWhile_append2 vx)
  have rv: "rev v \<noteq> []" "\<not> g_ascii_isspace (hd (rev v))"
    using v(1,3) by (simp_all add: hd_rev)
  then have "dropWhile g_ascii_isspace (rev v) = rev v"
    by (cases "rev v") simp_all
  moreover have "dropWhile g_ascii_isspace (rev ws2 @ rev v) = dropWhile g_ascii_isspace (rev v)"
    by (rule dropWhile_append2) (use w2 in auto)
  ultimately have trail: "dropWhile g_ascii_isspace (rev ws2 @ rev v) = rev v"
    by simp
  show hv: "header_value ?h = v"
    unfolding header_value_def dw by (simp add: lead trail)
  show "header_end ?h = Suc (length name) + length ws1 + length v"
    unfolding header_end_def Let_def hv tw dw by (simp add: tk)
qed

lemma sint_offset:
  assumes "- (2 ^ 63) \<le> x" and "x < 2 ^ 63"
  shows "sint (word_of_int x :: 64 word) = x"
  using assms by (simp add: sint_sbintrunc' signed_take_bit_int_eq_self)

text \<open>
  A Content-Length line whose length up to the end of its value is 64 or more is
  ignored, whatever its value.
\<close>

lemma content_length_long_line:
  "strcasecmp_eq (header_name header) ''content-length'' \<Longrightarrow> 64 \<le> header_end header \<Longrightarrow>
     input_curl_headerfunction header s = s"
  by (auto simp: input_curl_headerfunction_def Let_def strcasecmp_eq_def)

section \<open>The history kept for rewinding\<close>

lemma first_taken_length:
  "wf_curl c \<Longrightarrow> length (first_taken (c_buffers c)) = first_consumed (c_buffers c)"
  by (cases "c_buffers c") (auto simp: wf_curl_def wf_buffer_def first_taken_def first_consumed_def)

lemma polled_history:
  assumes "polled s s'" and "history_ok (is_data s) H"
  shows "history_ok (is_data s') H"
  using assms unfolding polled_def history_ok_def tracked_def by (auto split: if_splits)

lemma history_okI:
  assumes "c_rewind c = []" and "first_consumed (c_buffers c) \<le> length H"
    and "first_consumed (c_buffers c) = length H \<Longrightarrow> H = first_taken (c_buffers c)"
  shows "history_ok c H"
  using assms by (simp add: history_ok_def tracked_def)

lemma history_ok_tracked:
  assumes "tracked c H" and "length (first_taken (c_buffers c)) = first_consumed (c_buffers c)"
  shows "history_ok c H"
proof -
  have "length H = length (concat (map buf_data (c_rewind c))) + first_consumed (c_buffers c)"
    using assms by (simp add: tracked_def)
  then show ?thesis
    using assms(1) by (simp add: history_ok_def)
qed

lemma read_history:
  assumes wf: "wf_curl (is_data s)" and h: "history_ok (is_data s) H"
    and o: "is_offset s = int (length H)"
    and r: "input_curl_read s n = Inr (out, s')"
  shows "history_ok (is_data s') (H @ out)"
  using wf r
proof (cases rule: read_cases)
  case stopped
  then show ?thesis
    using polled_history [OF _ h] fill_buffers_props [OF stopped(1)] by simp
next
  case (copied s1 c2)
  note p = fill_buffers_props [OF copied(1)]
  have h1: "history_ok (is_data s1) H"
    using polled_history [OF _ h] p by simp
  have o1: "is_offset s1 = int (length H)"
    using p o by (simp add: polled_def)
  have w2: "wf_curl c2"
    using copied(3) by (simp add: copied_def)
  have len2: "length (first_taken (c_buffers c2)) = first_consumed (c_buffers c2)"
    using first_taken_length [OF w2] .
  show ?thesis
  proof (cases "c_rewind (is_data s1) \<noteq> [] \<or> is_offset s1 = 0")
    case True
    have t1: "tracked (is_data s1) H"
    proof (cases "c_rewind (is_data s1) \<noteq> []")
      case True
      then show ?thesis using h1 by (simp add: history_ok_def)
    next
      case False
      then have "H = []" using True o1 by simp
      then show ?thesis using h1 False by (simp add: history_ok_def)
    qed
    have "concat (map buf_data (c_rewind c2)) @ first_taken (c_buffers c2)
            = concat (map buf_data (c_rewind (is_data s1))) @ first_taken (c_buffers (is_data s1)) @ out"
      using copied(3) True by (simp add: copied_def)
    then have t2: "H @ out = concat (map buf_data (c_rewind c2)) @ first_taken (c_buffers c2)"
      using t1 by (simp add: tracked_def)
    have ok2: "history_ok c2 (H @ out)"
      using t2 len2 by (intro history_ok_tracked) (simp_all add: tracked_def)
    have l: "length (H @ out) = length (concat (map buf_data (c_rewind c2))) + first_consumed (c_buffers c2)"
    proof -
      have "length (H @ out) = length (concat (map buf_data (c_rewind c2)) @ first_taken (c_buffers c2))"
        using t2 by (rule arg_cong)
      then show ?thesis by (simp add: len2)
    qed
    have cl: "history_ok (c2\<lparr>c_rewind := []\<rparr>) (H @ out)"
    proof (rule history_okI)
      show "c_rewind (c2\<lparr>c_rewind := []\<rparr>) = []" by simp
      show "first_consumed (c_buffers (c2\<lparr>c_rewind := []\<rparr>)) \<le> length (H @ out)"
        using l by simp
      assume "first_consumed (c_buffers (c2\<lparr>c_rewind := []\<rparr>)) = length (H @ out)"
      then have "length (concat (map buf_data (c_rewind c2))) = 0"
        using l by simp
      then have "concat (map buf_data (c_rewind c2)) = []"
        by (simp only: length_0_conv)
      then show "H @ out = first_taken (c_buffers (c2\<lparr>c_rewind := []\<rparr>))"
        using t2 by simp
    qed
    show ?thesis
      using ok2 cl True by (simp add: copied(4))
  next
    case False
    then have rw: "c_rewind (is_data s1) = []" and nz: "H \<noteq> []"
      using o1 by auto
    have i1: "first_consumed (c_buffers (is_data s1)) \<le> length H"
      "first_consumed (c_buffers (is_data s1)) = length H \<Longrightarrow> H = first_taken (c_buffers (is_data s1))"
      using h1 rw unfolding history_ok_def tracked_def by simp_all
    have rw2: "c_rewind c2 = []"
      and d: "(first_consumed (c_buffers c2) = first_consumed (c_buffers (is_data s1)) + length out \<and>
               first_taken (c_buffers c2) = first_taken (c_buffers (is_data s1)) @ out) \<or>
              first_consumed (c_buffers c2) < first_consumed (c_buffers (is_data s1)) + length out"
      using copied(3) False rw by (simp_all add: copied_def)
    have le: "first_consumed (c_buffers c2) \<le> length (H @ out)"
      using d i1(1) by auto
    have eq: "first_consumed (c_buffers c2) = length (H @ out) \<Longrightarrow> H @ out = first_taken (c_buffers c2)"
      using d i1 by auto
    have "history_ok c2 (H @ out)"
      using rw2 le eq by (rule history_okI)
    then show ?thesis
      using False by (simp add: copied(4))
  qed
qed

lemma read_all_history:
  "wf_curl (is_data s) \<Longrightarrow> history_ok (is_data s) H \<Longrightarrow> is_offset s = int (length H) \<Longrightarrow>
   read_all s ns = Inr (tr, s') \<Longrightarrow>
     history_ok (is_data s') (H @ concat (map fst tr)) \<and>
     is_offset s' = int (length (H @ concat (map fst tr))) \<and> wf_curl (is_data s')"
proof (induction ns arbitrary: s H tr)
  case Nil
  then show ?case by simp
next
  case (Cons n ns)
  obtain out s1 where r: "input_curl_read s n = Inr (out, s1)"
    using Cons.prems(4) by (auto split: sum.splits)
  obtain tr1 where rest: "read_all s1 ns = Inr (tr1, s')" and tr: "tr = (out, is_offset s1) # tr1"
    using Cons.prems(4) r by (auto split: sum.splits)
  note rp = read_props [OF Cons.prems(1) r]
  have h1: "history_ok (is_data s1) (H @ out)"
    using read_history [OF Cons.prems(1,2,3) r] .
  have o1: "is_offset s1 = int (length (H @ out))"
    using rp(2) Cons.prems(3) by simp
  show ?case
    using Cons.IH [OF rp(3) h1 o1 rest] by (simp add: tr)
qed

lemma read_ready:
  assumes wf: "wf_curl (is_data s)" and e: "c_eof (is_data s) \<or> c_buffers (is_data s) \<noteq> []"
  shows "\<exists>s'. input_curl_read s n = Inr (take n (queued (is_data s)), s')"
proof -
  let ?rh = "c_rewind (is_data s) \<noteq> [] \<or> is_offset s = 0"
  have f: "fill_buffers CURLM_CALL_MULTI_PERFORM s = Inr (True, s)"
    using e by (simp add: fill_buffers_skip)
  obtain c2 where cl: "copy_loop n ?rh (is_data s) = Inr (take n (queued (is_data s)), c2)"
    using copy_loop_copied [OF wf, of n ?rh] by blast
  show ?thesis
    unfolding input_curl_read_def Let_def f using cl by auto
qed

text \<open>What \<^verbatim>\<open>input_curl_rewind\<close> does when the history is intact.\<close>

lemma rewind_tracked:
  assumes wf: "wf_curl (is_data s)" and t: "tracked (is_data s) H"
    and o: "is_offset s = int (length H)"
  shows "input_curl_rewind s =
           Inr (s\<lparr>is_offset := 0,
                  is_data := (is_data s)
                    \<lparr>c_buffers := map (\<lambda>b. b\<lparr>buf_consumed := 0\<rparr>) (c_rewind (is_data s))
                                    @ reset_first (c_buffers (is_data s)),
                     c_rewind := []\<rparr>\<rparr>)"
    and "wf_curl ((is_data s)
                    \<lparr>c_buffers := map (\<lambda>b. b\<lparr>buf_consumed := 0\<rparr>) (c_rewind (is_data s))
                                    @ reset_first (c_buffers (is_data s)),
                     c_rewind := []\<rparr>)"
    and "queued ((is_data s)
                    \<lparr>c_buffers := map (\<lambda>b. b\<lparr>buf_consumed := 0\<rparr>) (c_rewind (is_data s))
                                    @ reset_first (c_buffers (is_data s)),
                     c_rewind := []\<rparr>) = H @ queued (is_data s)"
proof -
  let ?rw = "c_rewind (is_data s)" and ?bs = "c_buffers (is_data s)"
  have rw: "list_all (\<lambda>b. wf_buffer b \<and> buf_consumed b = buf_size b) ?rw"
    using wf by (simp add: wf_curl_def)
  have meq: "map buf_consumed ?rw = map (\<lambda>b. length (buf_data b)) ?rw"
    by (rule map_cong) (use rw in \<open>auto simp: list_all_iff wf_buffer_def\<close>)
  have lc: "length (concat (map buf_data ?rw)) = sum_list (map (\<lambda>b. length (buf_data b)) ?rw)"
    by (simp add: length_concat comp_def)
  have "sum_list (map buf_consumed ?rw) = length (concat (map buf_data ?rw))"
    unfolding lc meq ..
  then have "int (sum_list (map buf_consumed ?rw) + first_consumed ?bs) = is_offset s"
    using t o first_taken_length [OF wf] by (simp add: tracked_def)
  then show "input_curl_rewind s =
           Inr (s\<lparr>is_offset := 0,
                  is_data := (is_data s)
                    \<lparr>c_buffers := map (\<lambda>b. b\<lparr>buf_consumed := 0\<rparr>) ?rw @ reset_first ?bs,
                     c_rewind := []\<rparr>\<rparr>)"
    by (simp add: input_curl_rewind_def)
  let ?B = "map (\<lambda>b. b\<lparr>buf_consumed := 0\<rparr>) ?rw @ reset_first ?bs"
  have z: "\<forall>b \<in> set (map (\<lambda>b. b\<lparr>buf_consumed := 0\<rparr>) ?rw).
             wf_buffer b \<and> buf_consumed b < buf_size b \<and> buf_consumed b = 0"
    using rw by (auto simp: list_all_iff wf_buffer_def)
  have zb: "\<forall>b \<in> set (reset_first ?bs).
             wf_buffer b \<and> buf_consumed b < buf_size b \<and> buf_consumed b = 0"
  proof (cases ?bs)
    case Nil
    then show ?thesis by (simp add: reset_first_def)
  next
    case (Cons buf rest)
    have "wf_buffer buf" and "list_all (\<lambda>b. wf_buffer b \<and> buf_consumed b < buf_size b) rest"
      and "list_all (\<lambda>b. buf_consumed b = 0) rest"
      using wf Cons by (simp_all add: wf_curl_def)
    then show ?thesis
      unfolding Cons reset_first_def by (auto simp: list_all_iff wf_buffer_def)
  qed
  have all: "\<forall>b \<in> set ?B. wf_buffer b \<and> buf_consumed b < buf_size b \<and> buf_consumed b = 0"
    using z zb by (simp only: set_append) blast
  have w1: "list_all (\<lambda>b. wf_buffer b \<and> buf_consumed b < buf_size b) ?B"
    unfolding list_all_iff using all by blast
  have "list_all (\<lambda>b. buf_consumed b = 0) ?B"
    unfolding list_all_iff using all by blast
  then have w2: "list_all (\<lambda>b. buf_consumed b = 0) (tl ?B)"
    by (cases ?B) simp_all
  show "wf_curl ((is_data s)\<lparr>c_buffers := ?B, c_rewind := []\<rparr>)"
    using w1 w2 by (simp add: wf_curl_def)
  have q1: "concat (map (\<lambda>b. drop (buf_consumed b) (buf_data b)) (map (\<lambda>b. b\<lparr>buf_consumed := 0\<rparr>) ?rw))
              = concat (map buf_data ?rw)"
    by (simp add: comp_def)
  have q2: "concat (map (\<lambda>b. drop (buf_consumed b) (buf_data b)) (reset_first ?bs))
              = first_taken ?bs @ queued (is_data s)"
    by (cases ?bs) (simp_all add: reset_first_def first_taken_def queued_def)
  show "queued ((is_data s)
                    \<lparr>c_buffers := map (\<lambda>b. b\<lparr>buf_consumed := 0\<rparr>) ?rw @ reset_first ?bs,
                     c_rewind := []\<rparr>) = H @ queued (is_data s)"
    using t q1 q2 by (simp add: tracked_def)
qed

section \<open>Faults while reading\<close>

text \<open>
  A read stops with a fault where the script of the engine ends, or where the
  assertion \<^verbatim>\<open>max_fd >= 0\<close> of \<^verbatim>\<open>input_curl_select\<close> fails: libcurl reported no
  descriptor to wait for. The assertions about the buffers never fail on a
  well-formed stream.
\<close>

lemma select_fault:
  "input_curl_select s = Inl e \<Longrightarrow>
     e = OutOfScript \<or>
     (e = AssertionFailed \<and> (\<exists>r rs. m_selects (multi_of s) = r # rs \<and> no_descriptor r))"
  by (auto simp: input_curl_select_def no_descriptor_def
           split: list.splits select_result.splits if_splits)

lemma perform_fault: "curl_multi_perform s = Inl e \<Longrightarrow> e = OutOfScript"
  by (auto simp: curl_multi_perform_def split: list.splits)

lemma read_perform_fault: "read_perform s = Inl e \<Longrightarrow> e = OutOfScript"
  by (auto simp: read_perform_def dest: perform_fault split: sum.splits if_splits prod.splits)

lemma read_perform_selects:
  assumes "read_perform s = Inr (nxt, s')"
  shows "m_selects (multi_of s') = m_selects (multi_of s)"
proof -
  obtain mcode s1 where p: "curl_multi_perform s = Inr (mcode, s1)"
    using assms by (auto simp: read_perform_def split: sum.splits)
  have m1: "m_selects (multi_of s1) = m_selects (multi_of s)"
    using perform_selects [OF p] .
  show ?thesis
  proof (cases "mcode \<noteq> CURLM_OK \<and> mcode \<noteq> CURLM_CALL_MULTI_PERFORM")
    case True
    then have "s' = set_eof True s1"
      using assms p by (simp add: read_perform_def)
    then show ?thesis using m1 by simp
  next
    case False
    obtain bret s2 where i: "input_curl_multi_info_read s1 = (bret, s2)"
      by (cases "input_curl_multi_info_read s1")
    have "s' = s2"
      using assms p False i by (auto simp: read_perform_def split: if_splits)
    then show ?thesis
      using info_read_flags [OF i] m1 by simp
  qed
qed

lemma read_poll_selects:
  assumes "read_poll mcode s = Inr (nxt, s')"
  shows "\<exists>used. m_selects (multi_of s) = used @ m_selects (multi_of s')"
proof (cases "mcode \<noteq> CURLM_CALL_MULTI_PERFORM")
  case False
  then have "read_perform s = Inr (nxt, s')"
    using assms by (simp add: read_poll_def)
  then show ?thesis
    using read_perform_selects by fastforce
next
  case True
  then obtain ret s1 where sl: "input_curl_select s = Inr (ret, s1)"
    using assms by (auto simp: read_poll_def split: sum.splits)
  obtain r where m1: "m_selects (multi_of s) = r # m_selects (multi_of s1)"
    using sl by (rule select_cases) simp
  show ?thesis
  proof (cases "ret \<le> 0")
    case True
    then have "s' = s1"
      using assms sl \<open>mcode \<noteq> CURLM_CALL_MULTI_PERFORM\<close> by (simp add: read_poll_def)
    then show ?thesis using m1 by (intro exI [of _ "[r]"]) simp
  next
    case False
    then have "read_perform s1 = Inr (nxt, s')"
      using assms sl \<open>mcode \<noteq> CURLM_CALL_MULTI_PERFORM\<close> by (simp add: read_poll_def)
    then have "m_selects (multi_of s') = m_selects (multi_of s1)"
      by (rule read_perform_selects)
    then show ?thesis using m1 by (intro exI [of _ "[r]"]) simp
  qed
qed

lemma read_poll_fault:
  assumes "read_poll mcode s = Inl e"
  shows "e = OutOfScript \<or>
         (e = AssertionFailed \<and> (\<exists>r rs. m_selects (multi_of s) = r # rs \<and> no_descriptor r))"
proof (cases "mcode \<noteq> CURLM_CALL_MULTI_PERFORM")
  case False
  then have "read_perform s = Inl e"
    using assms by (simp add: read_poll_def)
  then show ?thesis using read_perform_fault by simp
next
  case True
  show ?thesis
  proof (cases "input_curl_select s")
    case (Inl e')
    then have "e = e'"
      using assms True by (simp add: read_poll_def)
    then show ?thesis using select_fault [OF Inl] by simp
  next
    case (Inr p)
    obtain ret s1 where p: "p = (ret, s1)" by (cases p)
    then have "read_perform s1 = Inl e"
      using assms True Inr by (auto simp: read_poll_def split: if_splits)
    then show ?thesis using read_perform_fault by simp
  qed
qed

lemma fill_buffers_selects:
  "fill_buffers mcode s = Inr (filled, s') \<Longrightarrow>
     \<exists>used. m_selects (multi_of s) = used @ m_selects (multi_of s')"
proof (induction mcode s rule: fill_buffers.induct)
  case (1 mcode s)
  show ?case
  proof (cases "\<not> c_eof (is_data s) \<and> c_buffers (is_data s) = []")
    case False
    then have "s' = s"
      using "1.prems" by (auto simp: fill_buffers.simps [of mcode s])
    then show ?thesis by simp
  next
    case True
    then obtain nxt s1 where rp: "read_poll mcode s = Inr (nxt, s1)"
      using "1.prems" by (auto simp: fill_buffers.simps [of mcode s] split: sum.splits)
    obtain used1 where u1: "m_selects (multi_of s) = used1 @ m_selects (multi_of s1)"
      using read_poll_selects [OF rp] by blast
    show ?thesis
    proof (cases nxt)
      case None
      then have "s' = s1"
        using "1.prems" True rp by (auto simp: fill_buffers.simps [of mcode s])
      then show ?thesis using u1 by blast
    next
      case (Some mcode')
      then have rec: "fill_buffers mcode' s1 = Inr (filled, s')"
        using "1.prems" True rp by (auto simp: fill_buffers.simps [of mcode s])
      obtain used2 where "m_selects (multi_of s1) = used2 @ m_selects (multi_of s')"
        using "1.IH" [OF True rp _ _ rec] Some by auto
      then have "m_selects (multi_of s) = (used1 @ used2) @ m_selects (multi_of s')"
        using u1 by simp
      then show ?thesis by blast
    qed
  qed
qed

lemma fill_buffers_fault:
  "fill_buffers mcode s = Inl e \<Longrightarrow>
     e = OutOfScript \<or>
     (e = AssertionFailed \<and> (\<exists>r \<in> set (m_selects (multi_of s)). no_descriptor r))"
proof (induction mcode s rule: fill_buffers.induct)
  case (1 mcode s)
  show ?case
  proof (cases "\<not> c_eof (is_data s) \<and> c_buffers (is_data s) = []")
    case False
    then show ?thesis
      using "1.prems" by (auto simp: fill_buffers.simps [of mcode s])
  next
    case True
    show ?thesis
    proof (cases "read_poll mcode s")
      case (Inl e')
      then have "e = e'"
        using "1.prems" True by (simp add: fill_buffers.simps [of mcode s])
      then show ?thesis using read_poll_fault [OF Inl] by auto
    next
      case (Inr p)
      obtain nxt s1 where p: "p = (nxt, s1)" by (cases p)
      have rp: "read_poll mcode s = Inr (nxt, s1)"
        using Inr p by simp
      obtain used1 where u1: "m_selects (multi_of s) = used1 @ m_selects (multi_of s1)"
        using read_poll_selects [OF rp] by blast
      show ?thesis
      proof (cases nxt)
        case None
        then show ?thesis
          using "1.prems" True rp by (simp add: fill_buffers.simps [of mcode s])
      next
        case (Some mcode')
        then have "fill_buffers mcode' s1 = Inl e"
          using "1.prems" True rp by (simp add: fill_buffers.simps [of mcode s])
        then have "e = OutOfScript \<or>
            (e = AssertionFailed \<and> (\<exists>r \<in> set (m_selects (multi_of s1)). no_descriptor r))"
          using "1.IH" [OF True _ _ _] rp Some by simp
        then show ?thesis
          using u1 by auto
      qed
    qed
  qed
qed

lemma read_selects:
  assumes wf: "wf_curl (is_data s)" and r: "input_curl_read s n = Inr (out, s')"
  shows "\<exists>used. m_selects (multi_of s) = used @ m_selects (multi_of s')"
  using wf r
proof (cases rule: read_cases)
  case stopped
  then show ?thesis
    using fill_buffers_selects by blast
next
  case (copied s1 c2)
  have "c_multi c2 = multi_of s1"
    using copied_multi [OF copied(3)] by simp
  then have "multi_of s' = multi_of s1"
    by (simp add: copied(4))
  then show ?thesis
    using fill_buffers_selects [OF copied(1)] by simp
qed

lemma read_fault:
  assumes wf: "wf_curl (is_data s)" and r: "input_curl_read s n = Inl e"
  shows "e = OutOfScript \<or>
         (e = AssertionFailed \<and> (\<exists>r \<in> set (m_selects (multi_of s)). no_descriptor r))"
proof (cases "fill_buffers CURLM_CALL_MULTI_PERFORM s")
  case (Inl e')
  then have "e = e'"
    using r by (simp add: input_curl_read_def)
  then show ?thesis using fill_buffers_fault [OF Inl] by simp
next
  case (Inr p)
  obtain filled s1 where p: "p = (filled, s1)" by (cases p)
  have f: "fill_buffers CURLM_CALL_MULTI_PERFORM s = Inr (filled, s1)"
    using Inr p by simp
  have w1: "wf_curl (is_data s1)"
    using fill_buffers_props [OF f] wf by (simp add: polled_def)
  obtain c2 where "copy_loop n (c_rewind (is_data s1) \<noteq> [] \<or> is_offset s1 = 0) (is_data s1)
                     = Inr (take n (queued (is_data s1)), c2)"
    using copy_loop_copied [OF w1] by blast
  then have "\<exists>res. input_curl_read s n = Inr res"
    unfolding input_curl_read_def Let_def f by (cases filled) auto
  then show ?thesis using r by simp
qed

lemma read_all_fault:
  "wf_curl (is_data s) \<Longrightarrow> read_all s ns = Inl e \<Longrightarrow>
     e = OutOfScript \<or>
     (e = AssertionFailed \<and> (\<exists>r \<in> set (m_selects (multi_of s)). no_descriptor r))"
proof (induction ns arbitrary: s)
  case Nil
  then show ?case by simp
next
  case (Cons n ns)
  show ?case
  proof (cases "input_curl_read s n")
    case (Inl e')
    then have "e = e'" using Cons.prems(2) by simp
    then show ?thesis using read_fault [OF Cons.prems(1) Inl] by simp
  next
    case (Inr p)
    obtain out s1 where p: "p = (out, s1)" by (cases p)
    have r: "input_curl_read s n = Inr (out, s1)" using Inr p by simp
    have "read_all s1 ns = Inl e"
      using Cons.prems(2) r by (auto split: sum.splits)
    then have "e = OutOfScript \<or>
        (e = AssertionFailed \<and> (\<exists>r \<in> set (m_selects (multi_of s1)). no_descriptor r))"
      using Cons.IH [OF read_props(3) [OF Cons.prems(1) r]] by simp
    moreover obtain used where "m_selects (multi_of s) = used @ m_selects (multi_of s1)"
      using read_selects [OF Cons.prems(1) r] by blast
    ultimately show ?thesis by auto
  qed
qed

text \<open>
  The assertion does fail: on a stream whose engine has no data yet and no descriptor
  to wait for, the read stops in \<^verbatim>\<open>input_curl_select\<close>.
\<close>

lemma read_without_descriptor:
  "wf_curl (is_data no_descriptor_stream) \<and>
   input_curl_read no_descriptor_stream 10 = Inl AssertionFailed"
  by code_simp

section \<open>Claim C1: reads return the delivered bytes in order\<close>

text \<open>
  Claim C1. For a well-formed stream and any run of reads that returns: the bytes
  returned, in order, followed by the bytes still queued are the bytes that were
  queued before followed by the body bytes the engine delivered during the run, in
  arrival order; every read returns at most what was asked; and after each read the
  offset is the offset before it plus the number of bytes it returned. (A run does
  not return where the script of the engine ends, or where the assertion of
  \<^verbatim>\<open>input_curl_select\<close> fails: see \<open>read_all_fault\<close>.)
\<close>

theorem read_all_delivers:
  assumes "wf_curl (is_data s)" and "read_all s ns = Inr (tr, s')"
  shows "concat (map fst tr) @ queued (is_data s') = queued (is_data s) @ delivered s s' \<and>
         offsets_ok (is_offset s) tr \<and>
         list_all2 (\<lambda>out n. length (fst out) \<le> n) tr ns \<and>
         is_offset s' = is_offset s + int (length (concat (map fst tr)))"
proof -
  note all = read_all_fed [OF assms]
  let ?s'' = "s'\<lparr>is_data := (is_data s')\<lparr>c_buffers :=
            \<lparr>buf_size = length (concat (map fst tr)), buf_consumed = 0,
             buf_data = concat (map fst tr)\<rparr> # c_buffers (is_data s')\<rparr>\<rparr>"
  have "queued (is_data ?s'') = queued (is_data s) @ delivered s ?s''"
    using all by (intro fed_delivered) simp
  moreover have "delivered s ?s'' = delivered s s'"
    by (simp add: delivered_def)
  moreover have "queued (is_data ?s'') = concat (map fst tr) @ queued (is_data s')"
    by (simp add: queued_def)
  ultimately have "concat (map fst tr) @ queued (is_data s') = queued (is_data s) @ delivered s s'"
    by simp
  then show ?thesis
    using all by simp
qed

theorem read_all_delivers_witness:
  "wf_curl (is_data two_chunk_stream) \<and>
   (\<exists>tr s'. read_all two_chunk_stream [2, 4, 10, 10] = Inr (tr, s') \<and>
      tr = [(''ab'', 2), (''c'', 3), (''defgh'', 8), ([], 8)] \<and>
      delivered two_chunk_stream s' = ''defgh'' \<and>
      concat (map fst tr) @ queued (is_data s')
        = queued (is_data two_chunk_stream) @ delivered two_chunk_stream s' \<and>
      offsets_ok (is_offset two_chunk_stream) tr \<and>
      list_all2 (\<lambda>out n. length (fst out) \<le> n) tr [2, 4, 10, 10] \<and>
      is_offset s' = is_offset two_chunk_stream + int (length (concat (map fst tr))))"
proof -
  have w: "wf_curl (is_data two_chunk_stream)"
    by code_simp
  have "case read_all two_chunk_stream [2, 4, 10, 10] of
          Inr (tr, s') \<Rightarrow> tr = [(''ab'', 2), (''c'', 3), (''defgh'', 8), ([], 8)]
                           \<and> delivered two_chunk_stream s' = ''defgh''
        | Inl e \<Rightarrow> False"
    by code_simp
  then obtain tr s' where r: "read_all two_chunk_stream [2, 4, 10, 10] = Inr (tr, s')"
    and tr: "tr = [(''ab'', 2), (''c'', 3), (''defgh'', 8), ([], 8)]"
    and d: "delivered two_chunk_stream s' = ''defgh''"
    by (auto split: sum.splits)
  show ?thesis
    using w r tr d read_all_delivers [OF w r] by blast
qed

section \<open>Claim C2: the size of the rewind list\<close>

text \<open>
  Reading keeps the rewind list within \<^verbatim>\<open>max_rewind_size\<close>: the list is emptied as
  soon as the offset passes the limit, and its payload never exceeds the offset.
\<close>

lemma rewind_total_payload:
  "wf_curl c \<Longrightarrow> rewind_total c = length (concat (map buf_data (c_rewind c)))"
proof -
  assume "wf_curl c"
  then have meq: "map buf_size (c_rewind c) = map (\<lambda>b. length (buf_data b)) (c_rewind c)"
    by (intro map_cong) (auto simp: wf_curl_def wf_buffer_def list_all_iff)
  have lc: "length (concat (map buf_data (c_rewind c)))
              = sum_list (map (\<lambda>b. length (buf_data b)) (c_rewind c))"
    by (simp add: length_concat comp_def)
  show ?thesis
    unfolding rewind_total_def lc meq ..
qed

lemma read_rewind_limit:
  assumes wf: "wf_curl (is_data s)" and h: "history_ok (is_data s) H"
    and o: "is_offset s = int (length H)"
    and l: "int (rewind_total (is_data s)) \<le> max_rewind_size"
    and r: "input_curl_read s n = Inr (out, s')"
  shows "int (rewind_total (is_data s')) \<le> max_rewind_size"
  using wf r
proof (cases rule: read_cases)
  case stopped
  then show ?thesis
    using fill_buffers_props [OF stopped(1)] l by (simp add: polled_def rewind_total_def)
next
  case (copied s1 c2)
  note p = fill_buffers_props [OF copied(1)]
  have h1: "history_ok (is_data s1) H"
    using polled_history [OF _ h] p by simp
  have o1: "is_offset s1 = int (length H)"
    using p o by (simp add: polled_def)
  have w2: "wf_curl c2"
    using copied(3) by (simp add: copied_def)
  show ?thesis
  proof (cases "c_rewind (is_data s1) \<noteq> [] \<or> is_offset s1 = 0")
    case True
    have t1: "tracked (is_data s1) H"
    proof (cases "c_rewind (is_data s1) \<noteq> []")
      case True
      then show ?thesis using h1 by (simp add: history_ok_def)
    next
      case False
      then have "H = []" using True o1 by simp
      then show ?thesis using h1 False by (simp add: history_ok_def)
    qed
    have "concat (map buf_data (c_rewind c2)) @ first_taken (c_buffers c2)
            = concat (map buf_data (c_rewind (is_data s1))) @ first_taken (c_buffers (is_data s1)) @ out"
      using copied(3) True by (simp add: copied_def)
    then have "H @ out = concat (map buf_data (c_rewind c2)) @ first_taken (c_buffers c2)"
      using t1 by (simp add: tracked_def)
    then have "length (H @ out) = length (concat (map buf_data (c_rewind c2)) @ first_taken (c_buffers c2))"
      by (rule arg_cong)
    then have "rewind_total c2 \<le> length H + length out"
      using rewind_total_payload [OF w2] by simp
    then show ?thesis
      using True o1 by (simp add: copied(4) rewind_total_def max_rewind_size_def)
  next
    case False
    then have "c_rewind c2 = []"
      using copied(3) by (simp add: copied_def)
    then show ?thesis
      using False by (simp add: copied(4) rewind_total_def max_rewind_size_def)
  qed
qed

lemma read_all_rewind_limit:
  "wf_curl (is_data s) \<Longrightarrow> history_ok (is_data s) H \<Longrightarrow> is_offset s = int (length H) \<Longrightarrow>
   int (rewind_total (is_data s)) \<le> max_rewind_size \<Longrightarrow>
   read_all s ns = Inr (tr, s') \<Longrightarrow>
     int (rewind_total (is_data s')) \<le> max_rewind_size"
proof (induction ns arbitrary: s H tr)
  case Nil
  then show ?case by simp
next
  case (Cons n ns)
  obtain out s1 where r: "input_curl_read s n = Inr (out, s1)"
    using Cons.prems(5) by (auto split: sum.splits)
  obtain tr1 where rest: "read_all s1 ns = Inr (tr1, s')"
    using Cons.prems(5) r by (auto split: sum.splits)
  note rp = read_props [OF Cons.prems(1) r]
  have h1: "history_ok (is_data s1) (H @ out)"
    using read_history [OF Cons.prems(1,2,3) r] .
  have o1: "is_offset s1 = int (length (H @ out))"
    using rp(2) Cons.prems(3) by simp
  have l1: "int (rewind_total (is_data s1)) \<le> max_rewind_size"
    using read_rewind_limit [OF Cons.prems(1,2,3,4) r] .
  show ?case
    using Cons.IH [OF rp(3) h1 o1 l1 rest] .
qed

lemma reads_keep_rewind_limit:
  assumes "wf_curl (is_data s0)" and "is_offset s0 = 0" and "c_rewind (is_data s0) = []"
    and "first_consumed (c_buffers (is_data s0)) = 0"
    and "read_all s0 ns = Inr (tr, s)"
  shows "int (rewind_total (is_data s)) \<le> max_rewind_size"
proof -
  have h0: "history_ok (is_data s0) []"
    using assms(3,4) by (simp add: history_ok_def tracked_def first_taken_def first_consumed_def
        split: list.splits)
  have o0: "is_offset s0 = int (length ([] :: string))"
    using assms(2) by simp
  have l0: "int (rewind_total (is_data s0)) \<le> max_rewind_size"
    using assms(3) by (simp add: rewind_total_def max_rewind_size_def)
  show ?thesis
    using read_all_rewind_limit [OF assms(1) h0 o0 l0 assms(5)] .
qed

text \<open>Fast-forwarding over whole chunks moves them to the rewind list.\<close>

lemma fast_forward_whole_chunks:
  "c_buffers (is_data s) = bs @ rest \<Longrightarrow>
   list_all (\<lambda>b. buf_consumed b = 0 \<and> 0 < buf_size b) bs \<Longrightarrow>
   c_rewind (is_data s) \<noteq> [] \<or> is_offset s = 0 \<Longrightarrow>
   target = is_offset s + int (sum_list (map buf_size bs)) \<Longrightarrow>
   fast_forward target s =
     Inr (s\<lparr>is_offset := target,
            is_data := (is_data s)
               \<lparr>c_buffers := rest,
                c_rewind := c_rewind (is_data s) @ map (\<lambda>b. b\<lparr>buf_consumed := buf_size b\<rparr>) bs\<rparr>\<rparr>)"
proof (induction bs arbitrary: s)
  case Nil
  have "fast_forward (is_offset s) s = Inr s"
    by (simp add: fast_forward.simps [of "is_offset s" s] split: list.splits)
  moreover have "s\<lparr>is_offset := is_offset s,
            is_data := (is_data s)\<lparr>c_buffers := rest, c_rewind := c_rewind (is_data s)\<rparr>\<rparr> = s"
    using Nil.prems(1) by (cases s, cases "is_data s") simp
  ultimately show ?case using Nil.prems by simp
next
  case (Cons b bs)
  have b: "buf_consumed b = 0" "0 < buf_size b"
    using Cons.prems(2) by simp_all
  have gt: "target > is_offset s"
    using Cons.prems(4) b by simp
  have sk: "skip_length target s b = buf_size b"
    using Cons.prems(4) b by (simp add: skip_length_def)
  let ?c' = "(is_data s)\<lparr>c_buffers := bs @ rest,
                           c_rewind := c_rewind (is_data s) @ [b\<lparr>buf_consumed := buf_size b\<rparr>]\<rparr>"
  have cb: "consume_buffer (buf_size b) (c_rewind (is_data s) \<noteq> [] \<or> is_offset s = 0) (is_data s)
              = Inr ?c'"
    using Cons.prems(1,3) b by (simp add: consume_buffer_def)
  let ?s' = "s\<lparr>is_offset := is_offset s + int (buf_size b), is_data := ?c'\<rparr>"
  have step: "fast_forward target s = fast_forward target ?s'"
    using Cons.prems(1) gt sk cb by (simp add: fast_forward.simps [of target s])
  have "fast_forward target ?s' =
     Inr (?s'\<lparr>is_offset := target,
            is_data := (is_data ?s')
               \<lparr>c_buffers := rest,
                c_rewind := c_rewind (is_data ?s') @ map (\<lambda>b. b\<lparr>buf_consumed := buf_size b\<rparr>) bs\<rparr>\<rparr>)"
    using Cons.prems(2,4) by (intro Cons.IH) simp_all
  then show ?case
    unfolding step by simp
qed

lemma five_chunk_stream_eq:
  "five_chunk_stream =
     \<lparr>is_offset = 0, is_size = - 1, is_seekable = True, is_error = 0, is_ready = True,
      is_mime = None, is_meta_name = None,
      is_data = \<lparr>c_url = ''http://host/stream'', c_range = None, c_easy = True,
                 c_multi = \<lparr>m_performs = [], m_selects = [], m_inits = [], m_msgs = [],
                            m_starts = 1\<rparr>,
                 c_buffers = replicate 5 \<lparr>buf_size = 16384, buf_consumed = 0, buf_data = chunk16k\<rparr>,
                 c_buffered = True, c_eof = False, c_rewind = []\<rparr>\<rparr>"
proof -
  have len: "length chunk16k = 16384"
    by (simp add: chunk16k_def)
  have five: "replicate 5 x = [x, x, x, x, x]" for x :: buffer
    by (simp add: numeral_eq_Suc)
  show ?thesis
    unfolding five_chunk_stream_def opened_def input_curl_open_def new_stream_def script_def performs_def five
    by (simp add: input_curl_easy_init_def input_curl_send_request.simps curl_multi_perform_def
          input_curl_writefunction_def len input_curl_headerfunction_def header_name_def
          c_string_def strcasecmp_eq_def ascii_tolower_def char_of_eq_iff Let_def)
qed

text \<open>
  Claim C2 says that the rewind list never holds more than 64 KiB after an operation,
  fast-forward seeks included. \<^verbatim>\<open>input_curl_read\<close> empties the list when the
  offset has passed \<^verbatim>\<open>max_rewind_size\<close>; the fast-forward loop of
  \<^verbatim>\<open>input_curl_seek\<close> moves every skipped buffer to the list and has no such test.
  On the stream \<open>five_chunk_stream\<close> a seek to offset 81920 succeeds and leaves 81920 bytes on
  the rewind list.
\<close>

theorem seek_fast_forward_exceeds_rewind_limit:
  "is_offset five_chunk_stream = 0 \<and> rewind_total (is_data five_chunk_stream) = 0 \<and>
   (case input_curl_seek five_chunk_stream 81920 SEEK_SET of
      Inr (ok, s') \<Rightarrow>
        ok = True \<and> is_offset s' = 81920 \<and> rewind_total (is_data s') = 81920 \<and>
        int (rewind_total (is_data s')) > max_rewind_size
    | Inl e \<Rightarrow> False)"
proof -
  let ?chunk = "\<lparr>buf_size = 16384, buf_consumed = 0, buf_data = chunk16k\<rparr>"
  have ff: "fast_forward 81920 five_chunk_stream =
     Inr (five_chunk_stream\<lparr>is_offset := 81920,
            is_data := (is_data five_chunk_stream)
               \<lparr>c_buffers := [],
                c_rewind := c_rewind (is_data five_chunk_stream)
                  @ map (\<lambda>b. b\<lparr>buf_consumed := buf_size b\<rparr>) (replicate 5 ?chunk)\<rparr>\<rparr>)"
    by (rule fast_forward_whole_chunks) (simp_all add: five_chunk_stream_eq list_all_length sum_list_replicate)
  have pre: "is_offset five_chunk_stream = 0" "rewind_total (is_data five_chunk_stream) = 0"
    "is_seekable five_chunk_stream"
    by (simp_all add: five_chunk_stream_eq rewind_total_def)
  have sk: "input_curl_seek five_chunk_stream 81920 SEEK_SET =
     Inr (True, five_chunk_stream\<lparr>is_offset := 81920,
            is_data := (is_data five_chunk_stream)
               \<lparr>c_buffers := [],
                c_rewind := c_rewind (is_data five_chunk_stream)
                  @ map (\<lambda>b. b\<lparr>buf_consumed := buf_size b\<rparr>) (replicate 5 ?chunk)\<rparr>\<rparr>)"
    unfolding input_curl_seek_def using pre(3)
    by (simp add: seek_target_def SEEK_SET_def ff)
  show ?thesis
    unfolding sk using pre(1,2)
    by (simp add: rewind_total_def five_chunk_stream_eq max_rewind_size_def comp_def sum_list_replicate)
qed

section \<open>Claim C3: rewinding to the start\<close>

text \<open>
  Claim C3 says that after reading at most 64 KiB from offset 0 a seek to 0 succeeds
  without a new request and replays the bytes read, as the comment on
  \<^verbatim>\<open>max_rewind_size\<close> promises ("rewinding is possible after up to 64 kB").
  The source does not keep that promise. \<^verbatim>\<open>input_curl_can_rewind\<close> counts a reader
  that is still inside the very first buffer as able to rewind, but
  \<^verbatim>\<open>input_curl_read\<close> passes the rewind list to \<^verbatim>\<open>consume_buffer\<close> only when that
  list is not empty or the offset is 0 at the start of the call. A read that ends
  inside the first buffer leaves the list empty at a non-zero offset, and the read
  that finishes the buffer frees it.

  On a stream that is not seekable, with one chunk \<open>abcd\<close> queued: after reading 2
  bytes and 2 bytes (4 bytes from offset 0, far below 64 KiB) the rewind list and the
  buffer list are empty and \<^verbatim>\<open>seek(0, SEEK_SET)\<close> fails. After reading the same 4
  bytes in one call the seek succeeds without touching the multi handle, and the
  next read returns \<open>abcd\<close> again. Whether the stream can be rewound depends on how
  the reader split its calls.
\<close>

theorem rewind_lost_after_partial_read:
  "(case read_all one_chunk_stream [2, 2] of
      Inr (tr, s) \<Rightarrow>
        tr = [(''ab'', 2), (''cd'', 4)] \<and> is_offset s \<le> max_rewind_size \<and>
        c_rewind (is_data s) = [] \<and> c_buffers (is_data s) = [] \<and>
        input_curl_can_rewind s = False \<and>
        input_curl_seek s 0 SEEK_SET = Inr (False, s)
    | Inl e \<Rightarrow> False) \<and>
   (case read_all one_chunk_stream [4] of
      Inr (tr, s) \<Rightarrow>
        tr = [(''abcd'', 4)] \<and>
        (case input_curl_seek s 0 SEEK_SET of
           Inr (ok, s') \<Rightarrow>
             ok \<and> is_offset s' = 0 \<and> multi_of s' = multi_of s \<and>
             (case read_all s' [4] of
                Inr (tr', s'') \<Rightarrow> tr' = [(''abcd'', 4)]
              | Inl e \<Rightarrow> False)
         | Inl e \<Rightarrow> False)
    | Inl e \<Rightarrow> False)"
  by code_simp

text \<open>
  On a seekable stream the same two reads make \<^verbatim>\<open>seek(0, SEEK_SET)\<close> open a new
  request: the seek succeeds, and \<^verbatim>\<open>curl_easy_init\<close> has been called once more.
\<close>

lemma rewind_lost_reconnects:
  "(case read_all one_chunk_seekable_stream [2, 2] of
      Inr (tr, s) \<Rightarrow>
        tr = [(''ab'', 2), (''cd'', 4)] \<and> input_curl_can_rewind s = False \<and>
        (case input_curl_seek s 0 SEEK_SET of
           Inr (ok, s') \<Rightarrow> ok \<and> m_starts (multi_of s') = Suc (m_starts (multi_of s))
         | Inl e \<Rightarrow> False)
    | Inl e \<Rightarrow> False)"
  by code_simp

text \<open>
  What the source does keep: take a well-formed stream at offset 0 with an empty
  rewind list and nothing consumed, run any reads on it, and suppose
  \<^verbatim>\<open>input_curl_can_rewind\<close> holds afterwards. Then \<^verbatim>\<open>seek(0, SEEK_SET)\<close> succeeds
  and leaves the multi handle and its script untouched (no engine call at all); the
  offset is 0, the rewind list is empty, and the buffer list is the old rewind list
  followed by the old buffer list, in order, with the consumed counts of the former
  and of the first buffer of the latter reset to 0; and a read of as many bytes as
  were read before returns the same bytes.
\<close>

lemma seek_rewind_replays:
  assumes "wf_curl (is_data s0)" and "is_offset s0 = 0" and "c_rewind (is_data s0) = []"
    and "first_consumed (c_buffers (is_data s0)) = 0"
    and "read_all s0 ns = Inr (tr, s)" and "input_curl_can_rewind s"
  shows "\<exists>s'. input_curl_seek s 0 SEEK_SET = Inr (True, s') \<and>
           multi_of s' = multi_of s \<and> is_offset s' = 0 \<and> c_rewind (is_data s') = [] \<and>
           c_buffers (is_data s') =
             map (\<lambda>b. b\<lparr>buf_consumed := 0\<rparr>) (c_rewind (is_data s))
               @ reset_first (c_buffers (is_data s)) \<and>
           is_offset s = int (length (concat (map fst tr))) \<and>
           (\<exists>s''. input_curl_read s' (length (concat (map fst tr)))
                    = Inr (concat (map fst tr), s''))"
proof -
  let ?H = "concat (map fst tr)"
  have h0: "history_ok (is_data s0) []"
    using assms(3,4) by (simp add: history_ok_def tracked_def first_taken_def first_consumed_def
        split: list.splits)
  have o0: "is_offset s0 = int (length ([] :: string))"
    using assms(2) by simp
  have "history_ok (is_data s) ([] @ ?H) \<and> is_offset s = int (length ([] @ ?H)) \<and> wf_curl (is_data s)"
    using read_all_history [OF assms(1) h0 o0 assms(5)] .
  then have h: "history_ok (is_data s) ?H" and o: "is_offset s = int (length ?H)"
    and wf: "wf_curl (is_data s)"
    by simp_all
  have t: "tracked (is_data s) ?H"
  proof (cases "c_rewind (is_data s) \<noteq> []")
    case True
    then show ?thesis using h by (simp add: history_ok_def)
  next
    case False
    then have "first_consumed (c_buffers (is_data s)) = length ?H"
      using assms(6) o
      by (auto simp: input_curl_can_rewind_def first_consumed_def split: list.splits)
    then show ?thesis using h False by (simp add: history_ok_def)
  qed
  let ?c' = "(is_data s)
               \<lparr>c_buffers := map (\<lambda>b. b\<lparr>buf_consumed := 0\<rparr>) (c_rewind (is_data s))
                               @ reset_first (c_buffers (is_data s)),
                c_rewind := []\<rparr>"
  note rw = rewind_tracked [OF wf t o]
  show ?thesis
  proof (cases "is_offset s = 0")
    case True
    then have H: "?H = []"
      using o by simp
    have sk: "input_curl_seek s 0 SEEK_SET = Inr (True, s)"
      using True by (simp add: input_curl_seek_def)
    have "concat (map buf_data (c_rewind (is_data s))) = []" and ft: "first_taken (c_buffers (is_data s)) = []"
      using t H by (simp_all add: tracked_def)
    then have "\<forall>b \<in> set (c_rewind (is_data s)). buf_data b = []"
      by simp
    moreover have "\<forall>b \<in> set (c_rewind (is_data s)). buf_data b \<noteq> []"
      using wf by (auto simp: wf_curl_def wf_buffer_def list_all_iff)
    ultimately have r0: "c_rewind (is_data s) = []"
      by (cases "c_rewind (is_data s)") auto
    have "first_consumed (c_buffers (is_data s)) = 0"
      using first_taken_length [OF wf] ft by simp
    then have b0: "reset_first (c_buffers (is_data s)) = c_buffers (is_data s)"
      by (cases "c_buffers (is_data s)") (simp_all add: reset_first_def first_consumed_def)
    have ne: "c_buffers (is_data s) \<noteq> []"
      using assms(6) r0 by (auto simp: input_curl_can_rewind_def)
    obtain s'' where "input_curl_read s 0 = Inr (take 0 (queued (is_data s)), s'')"
      using read_ready [OF wf, of 0] ne by blast
    then have "input_curl_read s 0 = Inr ([], s'')"
      by simp
    then have rd: "input_curl_read s (length ?H) = Inr (?H, s'')"
      unfolding H by simp
    show ?thesis
      using sk True r0 b0 o rd by (intro exI [of _ s]) auto
  next
    case False
    let ?s' = "s\<lparr>is_offset := 0, is_data := ?c'\<rparr>"
    have sk: "input_curl_seek s 0 SEEK_SET = Inr (True, ?s')"
      using False assms(6) rw(1) by (simp add: input_curl_seek_def)
    have Hne: "?H \<noteq> []"
      using False o by auto
    have q: "queued (is_data ?s') = ?H @ queued (is_data s)"
      using rw(3) by simp
    have w': "wf_curl (is_data ?s')"
      using rw(2) by simp
    have ne: "c_buffers (is_data ?s') \<noteq> []"
      using assms(6)
      by (auto simp: input_curl_can_rewind_def reset_first_def split: list.splits if_splits)
    obtain s'' where "input_curl_read ?s' (length ?H) = Inr (take (length ?H) (queued (is_data ?s')), s'')"
      using read_ready [OF w', of "length ?H"] ne by blast
    then have rd: "input_curl_read ?s' (length ?H) = Inr (?H, s'')"
      unfolding q by simp
    show ?thesis
      using sk o rd by (intro exI [of _ ?s']) auto
  qed
qed

lemma seek_rewind_replays_example:
  "wf_curl (is_data two_chunk_stream) \<and> is_offset two_chunk_stream = 0 \<and> c_rewind (is_data two_chunk_stream) = [] \<and>
   first_consumed (c_buffers (is_data two_chunk_stream)) = 0 \<and>
   (\<exists>tr s. read_all two_chunk_stream [3, 2] = Inr (tr, s) \<and> tr = [(''abc'', 3), (''de'', 5)] \<and>
      input_curl_can_rewind s \<and>
      (\<exists>s'. input_curl_seek s 0 SEEK_SET = Inr (True, s') \<and>
           multi_of s' = multi_of s \<and> is_offset s' = 0 \<and> c_rewind (is_data s') = [] \<and>
           (\<exists>s''. input_curl_read s' 5 = Inr (''abcde'', s''))))"
proof -
  have h1: "wf_curl (is_data two_chunk_stream)" and h2: "is_offset two_chunk_stream = 0"
    and h3: "c_rewind (is_data two_chunk_stream) = []"
    and h4: "first_consumed (c_buffers (is_data two_chunk_stream)) = 0"
    by code_simp+
  have "case read_all two_chunk_stream [3, 2] of
          Inr (tr, s) \<Rightarrow> tr = [(''abc'', 3), (''de'', 5)] \<and> input_curl_can_rewind s
        | Inl e \<Rightarrow> False"
    by code_simp
  then obtain tr s where h5: "read_all two_chunk_stream [3, 2] = Inr (tr, s)"
    and tr: "tr = [(''abc'', 3), (''de'', 5)]" and h6: "input_curl_can_rewind s"
    by (auto split: sum.splits)
  have c: "concat (map fst tr) = ''abcde''"
    by (simp add: tr)
  have l: "length ''abcde'' = 5"
    by simp
  note r = seek_rewind_replays [OF h1 h2 h3 h4 h5 h6, unfolded c l]
  show ?thesis
    using h1 h2 h3 h4 h5 tr h6 r by blast
qed

section \<open>Claim C4: seeking to the current offset\<close>

text \<open>
  Claim C4 says that a seek whose target is the current offset succeeds on every stream,
  seekable or not, and changes nothing. The source tests \<^verbatim>\<open>is->seekable\<close> before
  it computes the target, so on a stream that is not seekable only
  \<^verbatim>\<open>seek(0, SEEK_SET)\<close> at offset 0 is the no-op: at offset 2 a seek to 2 fails.
\<close>

theorem seek_same_offset_not_seekable:
  "seek_target half_read_stream 2 SEEK_SET = Some (is_offset half_read_stream) \<and>
   input_curl_seek half_read_stream 2 SEEK_SET = Inr (False, half_read_stream)"
  by code_simp

text \<open>
  C4 as amended: when the target equals the current offset, the seek leaves the whole
  stream (offset, both lists, the multi handle and its script) as it was; it succeeds
  on a seekable stream, and for \<^verbatim>\<open>seek(0, SEEK_SET)\<close> at offset 0 on any stream, and
  fails otherwise.
\<close>

theorem seek_same_offset:
  assumes "seek_target s offset whence = Some (is_offset s)" and "0 \<le> is_offset s"
  shows "input_curl_seek s offset whence =
           Inr (is_seekable s \<or> (whence = SEEK_SET \<and> offset = 0), s)"
proof -
  have ff: "fast_forward (is_offset s) s = Inr s"
    by (simp add: fast_forward.simps [of "is_offset s" s] split: list.splits)
  show ?thesis
    using assms ff
    by (auto simp: input_curl_seek_def seek_target_def split: if_splits)
qed

theorem seek_same_offset_witness:
  "seek_target (half_read_stream\<lparr>is_seekable := True\<rparr>) 0 SEEK_CUR
     = Some (is_offset (half_read_stream\<lparr>is_seekable := True\<rparr>)) \<and>
   0 \<le> is_offset (half_read_stream\<lparr>is_seekable := True\<rparr>) \<and>
   input_curl_seek (half_read_stream\<lparr>is_seekable := True\<rparr>) 0 SEEK_CUR
     = Inr (True, half_read_stream\<lparr>is_seekable := True\<rparr>)"
proof -
  have h1: "seek_target (half_read_stream\<lparr>is_seekable := True\<rparr>) 0 SEEK_CUR
              = Some (is_offset (half_read_stream\<lparr>is_seekable := True\<rparr>))"
    by code_simp
  have h2: "0 \<le> is_offset (half_read_stream\<lparr>is_seekable := True\<rparr>)"
    by code_simp
  show ?thesis
    using h1 h2 seek_same_offset [OF h1 h2] by simp
qed

section \<open>Claim C5: reads after a failed transfer\<close>

text \<open>
  Claim C5 says that once the engine has reported a failure no queued byte is
  delivered any more. \<^verbatim>\<open>input_curl_read\<close> never looks at \<^verbatim>\<open>is->error\<close>: bytes
  that arrived with the failure are still in the buffer list and the next read
  returns them.
\<close>

theorem read_after_failure_delivers:
  "(case input_curl_read failing_stream 10 of
      Inr (out, s1) \<Rightarrow>
        out = [] \<and> is_error s1 = - 1 \<and>
        (case input_curl_read s1 10 of Inr (out2, s2) \<Rightarrow> out2 = ''ab'' | Inl e \<Rightarrow> False)
    | Inl e \<Rightarrow> False)"
  by code_simp

text \<open>
  C5 as amended: the read that sees the failure returns no bytes, stores the error
  (\<open>- 1\<close>) and sets the end-of-file flag. Every run of reads after it returns, never
  calls the engine again, keeps the error stored, and delivers exactly the bytes that
  were still queued, in order, and then nothing.
\<close>

theorem read_after_failure:
  assumes "wf_curl (is_data s)" and "is_error s = 0"
    and "input_curl_read s n = Inr (out, s1)" and "is_error s1 \<noteq> 0"
  shows "out = [] \<and> is_error s1 = - 1 \<and> c_eof (is_data s1) \<and>
         (\<forall>ns. \<exists>tr s2. read_all s1 ns = Inr (tr, s2) \<and>
                  concat (map fst tr) = take (sum_list ns) (queued (is_data s1)) \<and>
                  is_error s2 = - 1 \<and> multi_of s2 = multi_of s1)"
proof -
  have first: "out = [] \<and> is_error s1 = - 1 \<and> c_eof (is_data s1) \<and> wf_curl (is_data s1)"
    using assms(1,3)
  proof (cases rule: read_cases)
    case stopped
    then show ?thesis
      using fill_buffers_props [OF stopped(1)] assms by (simp add: polled_def)
  next
    case (copied s1' c2)
    have "is_error s1 = is_error s"
      using fill_buffers_props [OF copied(1)] by (simp add: copied(4))
    then show ?thesis using assms by simp
  qed
  then have later: "\<exists>tr s2. read_all s1 ns = Inr (tr, s2) \<and>
                  concat (map fst tr) = take (sum_list ns) (queued (is_data s1)) \<and>
                  is_error s2 = - 1 \<and> multi_of s2 = multi_of s1" for ns
    using read_all_eof [of s1 ns] by auto
  show ?thesis using first later by blast
qed

theorem read_after_failure_witness:
  "wf_curl (is_data failing_stream) \<and> is_error failing_stream = 0 \<and>
   (\<exists>s1. input_curl_read failing_stream 10 = Inr ([], s1) \<and> is_error s1 = - 1 \<and>
      c_eof (is_data s1) \<and> queued (is_data s1) = ''ab'' \<and>
      (\<forall>ns. \<exists>tr s2. read_all s1 ns = Inr (tr, s2) \<and>
                  concat (map fst tr) = take (sum_list ns) (queued (is_data s1)) \<and>
                  is_error s2 = - 1 \<and> multi_of s2 = multi_of s1))"
proof -
  have w: "wf_curl (is_data failing_stream)" and e: "is_error failing_stream = 0"
    by code_simp+
  have "case input_curl_read failing_stream 10 of
          Inr (out, s1) \<Rightarrow> out = [] \<and> is_error s1 = - 1 \<and> queued (is_data s1) = ''ab''
        | Inl e \<Rightarrow> False"
    by code_simp
  then obtain s1 where r: "input_curl_read failing_stream 10 = Inr ([], s1)"
    and e1: "is_error s1 = - 1" and q: "queued (is_data s1) = ''ab''"
    by (auto split: sum.splits)
  have ne: "is_error s1 \<noteq> 0" using e1 by simp
  show ?thesis
    using w e r q read_after_failure [OF w e r ne] by blast
qed

section \<open>Claim C6: Content-Length sets the size\<close>

text \<open>
  Claim C6 says that every well-formed Content-Length line with value \<open>v\<close> sets the
  size to the offset plus \<open>v\<close>. The source ignores the line when \<^verbatim>\<open>end - header\<close>,
  the length of the line up to the end of the value, is 64 or more
  (\<^verbatim>\<open>sizeof(buffer)\<close>): with 48 blanks before the value 5 the size stays unknown.
\<close>

theorem content_length_long_line_ignored:
  "header_value ''Content-Length:                                                5'' = ''5'' \<and>
   input_curl_headerfunction
     ''Content-Length:                                                5''
     (new_stream\<lparr>is_offset := 1000\<rparr>) = new_stream\<lparr>is_offset := 1000\<rparr>"
  by (simp add: input_curl_headerfunction_def header_name_def header_value_def header_end_def
        c_string_def strcasecmp_eq_def ascii_tolower_def g_ascii_isspace_def Let_def
        char_of_eq_iff new_stream_def)

text \<open>
  C6 as amended: a line \<open>name: digits\<close>, with any white space around the digits, whose
  name is Content-Length in any case, whose length up to the last digit is below 64,
  and whose value \<open>v\<close> keeps the sum with the offset below \<open>2 ^ 63\<close>, sets the size to
  the offset plus \<open>v\<close> and changes nothing else.
\<close>

theorem content_length_sets_size:
  assumes "strcasecmp_eq name ''content-length''"
    and "list_all g_ascii_isspace ws1" and "list_all g_ascii_isspace ws2"
    and "ds \<noteq> []" and "list_all is_digit ds"
    and "length name + 1 + length ws1 + length ds < 64"
    and "0 \<le> is_offset s" and "is_offset s + int (decimal_value ds) < 2 ^ 63"
  shows "input_curl_headerfunction (name @ CHR '':'' # ws1 @ ds @ ws2) s
           = s\<lparr>is_size := is_offset s + int (decimal_value ds)\<rparr>"
proof -
  let ?h = "name @ CHR '':'' # ws1 @ ds @ ws2"
  note nm = content_length_name [OF assms(1)]
  have first: "is_digit (hd ds)" and last: "is_digit (last ds)"
    using assms(4,5) by (auto simp: list_all_iff)
  note parts = header_parts [OF nm(1,2) assms(2,3,4) digit_not_special(1) [OF first]
      digit_not_special(1) [OF last]]
  have "int (decimal_value ds) < 2 ^ 63"
    using assms(7,8) by simp
  then have "int (decimal_value ds) \<le> int G_MAXUINT64"
    by (simp add: G_MAXUINT64_def)
  then have "decimal_value ds \<le> G_MAXUINT64"
    by (simp only: of_nat_le_iff)
  then have st: "g_ascii_strtoull ds = word_of_nat (decimal_value ds)"
    using strtoull_digits [OF assms(4,5)] by simp
  have "(word_of_int (is_offset s) :: 64 word) + word_of_nat (decimal_value ds)
          = word_of_int (is_offset s + int (decimal_value ds))"
    by simp
  then have sz: "sint ((word_of_int (is_offset s) :: 64 word) + g_ascii_strtoull ds)
          = is_offset s + int (decimal_value ds)"
    unfolding st using assms(7,8) by (simp only: sint_offset)
  have colon: "CHR '':'' \<in> set ?h"
    by simp
  show ?thesis
    unfolding input_curl_headerfunction_def Let_def parts
    using colon nm(3,4) assms(1,6) sz by simp
qed

theorem content_length_sets_size_witness:
  "strcasecmp_eq ''Content-Length'' ''content-length'' \<and>
   list_all g_ascii_isspace '' '' \<and> list_all g_ascii_isspace [CHR 0x0D, CHR 0x0A] \<and>
   list_all is_digit ''12345'' \<and> decimal_value ''12345'' = 12345 \<and>
   input_curl_headerfunction (''Content-Length: 12345'' @ [CHR 0x0D, CHR 0x0A])
     (new_stream\<lparr>is_offset := 1000\<rparr>)
     = new_stream\<lparr>is_offset := 1000, is_size := 13345\<rparr>"
proof -
  have h1: "strcasecmp_eq ''Content-Length'' ''content-length''"
    by (simp add: strcasecmp_eq_def ascii_tolower_def char_of_eq_iff)
  have h2: "list_all g_ascii_isspace '' ''" and h3: "list_all g_ascii_isspace [CHR 0x0D, CHR 0x0A]"
    by (simp_all add: g_ascii_isspace_def)
  have h4: "''12345'' \<noteq> []" and h5: "list_all is_digit ''12345''"
    by (simp_all add: is_digit_def)
  have v: "decimal_value ''12345'' = 12345"
    by (simp add: decimal_value_def digit_val_def)
  have h6: "length ''Content-Length'' + 1 + length '' '' + length ''12345'' < 64"
    by simp
  have h7: "0 \<le> is_offset (new_stream\<lparr>is_offset := 1000\<rparr>)"
    and h8: "is_offset (new_stream\<lparr>is_offset := 1000\<rparr>) + int (decimal_value ''12345'') < 2 ^ 63"
    by (simp_all add: v)
  show ?thesis
    using h1 h2 h3 h5 v content_length_sets_size [OF h1 h2 h3 h4 h5 h6 h7 h8]
    by (simp add: v)
qed

section \<open>Claim C7: a Content-Length value that is no number\<close>

text \<open>
  Claim C7 says that an unparsable Content-Length value leaves the size as it was.
  The source does not check what \<^verbatim>\<open>g_ascii_strtoull\<close> could convert (it passes
  \<^verbatim>\<open>NULL\<close> for the end pointer); no digits give 0, and the size becomes the
  offset: an unknown size (-1) at offset 0 becomes 0.
\<close>

theorem content_length_unparsable_changes_size:
  "is_size new_stream = - 1 \<and>
   is_size (input_curl_headerfunction ''Content-Length: abc'' new_stream) = 0"
  by (simp add: input_curl_headerfunction_def header_name_def header_value_def header_end_def
        c_string_def strcasecmp_eq_def ascii_tolower_def g_ascii_isspace_def Let_def
        g_ascii_strtoull_def g_parse_long_long_def strtoull_isspace_def is_digit_def
        char_of_eq_iff new_stream_def)

text \<open>
  C7 as amended: a Content-Length line shorter than 64 bytes up to the end of its
  value, whose value starts with a character that is no digit, no sign and no white
  space, sets the size to the current offset and changes nothing else.
\<close>

theorem content_length_unparsable:
  assumes "strcasecmp_eq name ''content-length''"
    and "list_all g_ascii_isspace ws1" and "list_all g_ascii_isspace ws2"
    and "v \<noteq> []" and "\<not> g_ascii_isspace (hd v)" and "\<not> g_ascii_isspace (last v)"
    and "\<not> is_digit (hd v)" and "hd v \<notin> {CHR ''-'', CHR ''+'', CHR 0x0B}"
    and "length name + 1 + length ws1 + length v < 64"
    and "- (2 ^ 63) \<le> is_offset s" and "is_offset s < 2 ^ 63"
  shows "input_curl_headerfunction (name @ CHR '':'' # ws1 @ v @ ws2) s
           = s\<lparr>is_size := is_offset s\<rparr>"
proof -
  let ?h = "name @ CHR '':'' # ws1 @ v @ ws2"
  note nm = content_length_name [OF assms(1)]
  note parts = header_parts [OF nm(1,2) assms(2,3,4,5,6)]
  have "\<not> strtoull_isspace (hd v)"
    using assms(5,8) by (simp add: strtoull_isspace_def)
  then have st: "g_ascii_strtoull v = 0"
    using assms(7,8) by (intro strtoull_no_number) simp
  have sz: "sint ((word_of_int (is_offset s) :: 64 word) + g_ascii_strtoull v) = is_offset s"
    unfolding st using assms(10,11) by (simp add: sint_offset)
  have colon: "CHR '':'' \<in> set ?h"
    by simp
  show ?thesis
    unfolding input_curl_headerfunction_def Let_def parts
    using colon nm(3,4) assms(1,9) sz by simp
qed

theorem content_length_unparsable_witness:
  "strcasecmp_eq ''Content-Length'' ''content-length'' \<and>
   list_all g_ascii_isspace '' '' \<and> list_all g_ascii_isspace [CHR 0x0D, CHR 0x0A] \<and>
   input_curl_headerfunction (''Content-Length: abc'' @ [CHR 0x0D, CHR 0x0A]) new_stream
     = new_stream\<lparr>is_size := 0\<rparr>"
proof -
  have h1: "strcasecmp_eq ''Content-Length'' ''content-length''"
    by (simp add: strcasecmp_eq_def ascii_tolower_def char_of_eq_iff)
  have h2: "list_all g_ascii_isspace '' ''" and h3: "list_all g_ascii_isspace [CHR 0x0D, CHR 0x0A]"
    by (simp_all add: g_ascii_isspace_def)
  have h4: "''abc'' \<noteq> []" and h5: "\<not> g_ascii_isspace (hd ''abc'')"
    and h6: "\<not> g_ascii_isspace (last ''abc'')" and h7: "\<not> is_digit (hd ''abc'')"
    and h8: "hd ''abc'' \<notin> {CHR ''-'', CHR ''+'', CHR 0x0B}"
    by (simp_all add: g_ascii_isspace_def is_digit_def)
  have h9: "length ''Content-Length'' + 1 + length '' '' + length ''abc'' < 64"
    by simp
  have h10: "- (2 ^ 63) \<le> is_offset new_stream" and h11: "is_offset new_stream < 2 ^ 63"
    and o: "is_offset new_stream = 0"
    by (simp_all add: new_stream_def)
  show ?thesis
    using h1 h2 h3 content_length_unparsable [OF h1 h2 h3 h4 h5 h6 h7 h8 h9 h10 h11]
    by (simp add: o)
qed

section \<open>Claim C8: seeking to the end of the resource\<close>

text \<open>
  Claim C8. On the reconnect path of a seek whose target is the known size of the
  resource (the stream is seekable, the request is no no-op and no rewind, and the
  fast-forward loop ends in \<open>s1\<close> short of the target): the seek succeeds; no handle
  is created and nothing is taken from the script of \<^verbatim>\<open>curl_multi_perform\<close>; the easy
  handle and both lists are gone; \<^verbatim>\<open>input_curl_eof\<close> holds; and every run of reads
  after it returns no bytes and leaves the stream as it is.
\<close>

theorem seek_to_size:
  assumes "is_seekable s" and "seek_target s offset whence = Some (is_size s)"
    and "0 \<le> is_size s"
    and "\<not> (whence = SEEK_SET \<and> offset = 0 \<and> (is_offset s = 0 \<or> input_curl_can_rewind s))"
    and "fast_forward (is_size s) s = Inr s1" and "is_offset s1 \<noteq> is_size s"
  shows "\<exists>s'. input_curl_seek s offset whence = Inr (True, s') \<and>
           input_curl_eof s' \<and> is_offset s' = is_size s \<and>
           \<not> c_easy (is_data s') \<and> c_buffers (is_data s') = [] \<and> c_rewind (is_data s') = [] \<and>
           m_starts (multi_of s') = m_starts (multi_of s) \<and>
           m_inits (multi_of s') = m_inits (multi_of s) \<and>
           m_performs (multi_of s') = m_performs (multi_of s) \<and>
           (\<forall>ns. read_all s' ns = Inr (map (\<lambda>n. ([], is_size s)) ns, s'))"
proof -
  let ?s' = "s1\<lparr>is_offset := is_size s,
                 is_data := (input_curl_easy_free (is_data s1))\<lparr>c_eof := True\<rparr>\<rparr>"
  have sk: "input_curl_seek s offset whence = Inr (True, ?s')"
    using seek_reconnect [OF assms] by simp
  have m: "multi_of s1 = multi_of s"
    using fast_forward_fields(1) [OF assms(5)] .
  have fields: "input_curl_eof ?s'" "is_offset ?s' = is_size s" "\<not> c_easy (is_data ?s')"
    "c_buffers (is_data ?s') = []" "c_rewind (is_data ?s') = []"
    "m_starts (multi_of ?s') = m_starts (multi_of s)"
    "m_inits (multi_of ?s') = m_inits (multi_of s)"
    "m_performs (multi_of ?s') = m_performs (multi_of s)"
    by (simp_all add: input_curl_eof_def input_curl_easy_free_def m)
  have "c_eof (is_data ?s')"
    by simp
  then have reads: "read_all ?s' ns = Inr (map (\<lambda>n. ([], is_size s)) ns, ?s')" for ns
    using read_all_at_end [of ?s' ns] fields(4,5) by simp
  show ?thesis
    using sk fields reads by blast
qed

theorem seek_to_size_witness:
  "is_seekable sized_stream \<and> seek_target sized_stream 0 SEEK_END = Some (is_size sized_stream) \<and>
   0 \<le> is_size sized_stream \<and>
   (\<exists>s1. fast_forward (is_size sized_stream) sized_stream = Inr s1 \<and> is_offset s1 = 4) \<and>
   (\<exists>s'. input_curl_seek sized_stream 0 SEEK_END = Inr (True, s') \<and>
           input_curl_eof s' \<and> is_offset s' = 8 \<and>
           m_starts (multi_of s') = m_starts (multi_of sized_stream) \<and>
           (\<forall>ns. read_all s' ns = Inr (map (\<lambda>n. ([], 8)) ns, s')))"
proof -
  have h1: "is_seekable sized_stream"
    and h2: "seek_target sized_stream 0 SEEK_END = Some (is_size sized_stream)"
    and h3: "0 \<le> is_size sized_stream"
    and h4: "\<not> (SEEK_END = SEEK_SET \<and> (0::int) = 0 \<and>
                (is_offset sized_stream = 0 \<or> input_curl_can_rewind sized_stream))"
    and sz: "is_size sized_stream = 8"
    by code_simp+
  have "case fast_forward (is_size sized_stream) sized_stream of
          Inr s1 \<Rightarrow> is_offset s1 = 4 | Inl e \<Rightarrow> False"
    by code_simp
  then obtain s1 where h5: "fast_forward (is_size sized_stream) sized_stream = Inr s1"
    and o1: "is_offset s1 = 4"
    by (auto split: sum.splits)
  have h6: "is_offset s1 \<noteq> is_size sized_stream"
    using o1 sz by simp
  show ?thesis
    using h1 h2 h3 h5 o1 seek_to_size [OF h1 h2 h3 h4 h5 h6] unfolding sz by blast
qed

section \<open>Claim C9: when a read returns no bytes\<close>

text \<open>
  Claim C9 says that a read never returns zero bytes while the transfer is still
  active. The source returns 0 as soon as the wait for the socket reports no ready
  descriptor (\<^verbatim>\<open>if (ret <= 0) return 0\<close>, "no data yet or error"): the stream below
  is neither at its end nor in error after a read that returned nothing.
\<close>

theorem read_zero_while_active:
  "(case input_curl_read idle_stream 10 of
      Inr (out, s') \<Rightarrow> out = [] \<and> c_eof (is_data s') = False \<and> is_error s' = 0
    | Inl e \<Rightarrow> False)"
  by code_simp

text \<open>
  C9 as amended: a read of at least one byte returns no bytes only if the end-of-file
  flag is set afterwards (the transfer is done or has failed, or
  \<^verbatim>\<open>curl_multi_perform\<close> failed), or if a wait for the socket in this call returned
  0 or less. A would-block is retried only as long as \<^verbatim>\<open>select\<close> reports a ready
  descriptor.
\<close>

theorem read_zero_only:
  assumes "wf_curl (is_data s)" and "0 < n" and "input_curl_read s n = Inr ([], s')"
  shows "c_eof (is_data s') \<or>
         (\<exists>used r. m_selects (multi_of s) = used @ r # m_selects (multi_of s') \<and>
                    select_value r \<le> 0)"
  using assms(1,3)
proof (cases rule: read_cases)
  case stopped
  then show ?thesis
    using fill_buffers_props [OF stopped(1)] by simp
next
  case (copied s1 c2)
  note p = fill_buffers_props [OF copied(1)]
  have w1: "wf_curl (is_data s1)"
    using p assms(1) by (simp add: polled_def)
  have "queued (is_data s1) = []"
    using copied(2) assms(2) by simp
  then have "c_buffers (is_data s1) = []"
    using wf_queued_empty [OF w1] by simp
  then have "c_eof (is_data s1)"
    using p by simp
  then have "c_eof c2"
    using copied_multi [OF copied(3)] by simp
  then show ?thesis
    by (simp add: copied(4))
qed

theorem read_zero_only_witness:
  "wf_curl (is_data idle_stream) \<and> (0::nat) < 10 \<and>
   (\<exists>s'. input_curl_read idle_stream 10 = Inr ([], s') \<and>
      (c_eof (is_data s') \<or>
       (\<exists>used r. m_selects (multi_of idle_stream) = used @ r # m_selects (multi_of s') \<and>
                  select_value r \<le> 0)))"
proof -
  have w: "wf_curl (is_data idle_stream)"
    by code_simp
  have "case input_curl_read idle_stream 10 of Inr (out, s') \<Rightarrow> out = [] | Inl e \<Rightarrow> False"
    by code_simp
  then obtain s' where r: "input_curl_read idle_stream 10 = Inr ([], s')"
    by (auto split: sum.splits)
  have n: "(0::nat) < 10" by simp
  show ?thesis
    using w n r read_zero_only [OF w n r] by blast
qed

section \<open>Claim C10: a reconnect that fails\<close>

text \<open>
  Claim C10 says that after a failed reconnect both lists are empty. That holds when
  creating the request fails. When submitting it fails, the callbacks may already
  have run: below \<^verbatim>\<open>curl_multi_perform\<close> delivers \<open>xy\<close> and asks to be called again,
  the second call fails, and \<^verbatim>\<open>input_curl_seek\<close> returns false with \<open>xy\<close> queued.
\<close>

theorem seek_reconnect_failure_queue:
  "(case input_curl_seek refused_stream 100 SEEK_SET of
      Inr (ok, s') \<Rightarrow> ok = False \<and> is_offset s' = 100 \<and> queued (is_data s') = ''xy''
    | Inl e \<Rightarrow> False)"
  by code_simp

text \<open>
  C10 as amended: on the reconnect path with a target other than the known size, a
  seek that returns false has set the offset to the target, has called
  \<^verbatim>\<open>curl_easy_init\<close> once, and has left the rewind list empty; the buffer list holds nothing of the old
  transfer, only the body bytes the engine delivered to the new request; and it is
  empty when creating the request failed.
\<close>

theorem seek_reconnect_failure:
  assumes "is_seekable s" and "seek_target s offset whence = Some target" and "0 \<le> target"
    and "\<not> (whence = SEEK_SET \<and> offset = 0 \<and> (is_offset s = 0 \<or> input_curl_can_rewind s))"
    and "fast_forward target s = Inr s1" and "is_offset s1 \<noteq> target"
    and "target \<noteq> is_size s"
    and "input_curl_seek s offset whence = Inr (False, s')"
  shows "is_offset s' = target \<and> c_rewind (is_data s') = [] \<and>
         queued (is_data s') = delivered s s' \<and>
         m_starts (multi_of s') = Suc (m_starts (multi_of s)) \<and>
         (\<forall>r rs. m_inits (multi_of s) = r # rs \<and> r \<noteq> EasyOk \<longrightarrow> c_buffers (is_data s') = [])"
proof -
  let ?s0 = "s1\<lparr>is_offset := target, is_data := input_curl_easy_free (is_data s1)\<rparr>"
  note sk = seek_reconnect [OF assms(1-6)]
  have m: "multi_of s1 = multi_of s"
    using fast_forward_fields(1) [OF assms(5)] .
  have mi: "m_inits (multi_of ?s0) = m_inits (multi_of s)"
    by (simp add: input_curl_easy_free_def m)
  obtain ret0 s20 where "input_curl_easy_init ?s0 = Inr (ret0, s20)"
    using sk assms(7,8) by (auto split: sum.splits)
  then obtain r rs where i: "m_inits (multi_of s) = r # rs"
    unfolding input_curl_easy_init_def mi by (cases "m_inits (multi_of s)") simp_all
  let ?s2 = "?s0\<lparr>is_data := (is_data ?s0)
                    \<lparr>c_eof := False, c_easy := (r \<noteq> EasyNull),
                     c_multi := (multi_of ?s0)\<lparr>m_inits := rs,
                                             m_starts := Suc (m_starts (multi_of ?s0))\<rparr>\<rparr>\<rparr>"
  have init: "input_curl_easy_init ?s0 = Inr (r = EasyOk, ?s2)"
    using i m by (simp add: input_curl_easy_init_def input_curl_easy_free_def)
  have s2: "is_offset ?s2 = target" "c_rewind (is_data ?s2) = []" "c_buffers (is_data ?s2) = []"
    "m_starts (multi_of ?s2) = Suc (m_starts (multi_of s))"
    "m_performs (multi_of ?s2) = m_performs (multi_of s)"
    using m by (simp_all add: input_curl_easy_free_def)
  show ?thesis
  proof (cases "r = EasyOk")
    case False
    then have "s' = ?s2"
      using sk assms(7,8) init by simp
    then show ?thesis
      using s2 by (simp add: delivered_def engine_body_def queued_def)
  next
    case True
    let ?s3 = "if is_offset ?s2 > 0
               then ?s2\<lparr>is_data := (is_data ?s2)
                         \<lparr>c_range := Some (decimal (nat (is_offset ?s2)) @ ''-'')\<rparr>\<rparr>
               else ?s2"
    have s3: "is_offset ?s3 = target" "c_rewind (is_data ?s3) = []" "queued (is_data ?s3) = []"
      "m_starts (multi_of ?s3) = Suc (m_starts (multi_of s))"
      "m_performs (multi_of ?s3) = m_performs (multi_of s)"
      using m by (simp_all add: input_curl_easy_free_def queued_def)
    have sk2: "input_curl_seek s offset whence =
                 (case input_curl_send_request ?s3 of
                    Inl e \<Rightarrow> Inl e
                  | Inr (sent, s3) \<Rightarrow>
                      if \<not> sent then Inr (False, s3)
                      else Inr (input_curl_multi_info_read s3))"
      unfolding sk by (simp only: assms(7) init True if_False sum.case prod.case simp_thms)
    obtain sent s4 where sr: "input_curl_send_request ?s3 = Inr (sent, s4)"
    proof (cases "input_curl_send_request ?s3")
      case (Inl e)
      then have "input_curl_seek s offset whence = Inl e"
        unfolding sk2 by (simp only: sum.case)
      then show ?thesis using assms(8) by simp
    next
      case (Inr p)
      then show ?thesis using that by (cases p) simp
    qed
    have p4: "polled ?s3 s4" "fed ?s3 s4"
      using send_request_props [OF sr] by simp_all
    have "Inr (False, s') = (if \<not> sent then Inr (False, s4)
                             else (Inr (input_curl_multi_info_read s4)
                                   :: fault + (bool \<times> input_stream)))"
      using assms(8) unfolding sk2 sr by (simp only: sum.case prod.case)
    then have "s' = s4 \<or> s' = snd (input_curl_multi_info_read s4)"
      by (cases sent) (auto simp: prod_eq_iff)
    then have p: "polled ?s3 s'" "fed ?s3 s'"
      using p4 info_read_polled [of s4] info_read_fed [of s4]
      by (auto intro: polled_trans fed_trans)
    have "queued (is_data s') = queued (is_data ?s3) @ delivered ?s3 s'"
      using fed_delivered [OF p(2)] .
    then have q: "queued (is_data s') = delivered s s'"
      using s3(3) delivered_cong [OF s3(5), of s'] by simp
    have "is_offset s' = target" "c_rewind (is_data s') = []"
      "m_starts (multi_of s') = Suc (m_starts (multi_of s))"
      using p(1) s3 unfolding polled_def by simp_all
    then show ?thesis
      using q True i by simp
  qed
qed

theorem seek_reconnect_failure_witness:
  "is_seekable refused_stream \<and> seek_target refused_stream 100 SEEK_SET = Some 100 \<and>
   (\<exists>s1. fast_forward 100 refused_stream = Inr s1 \<and> is_offset s1 = 4) \<and>
   (\<exists>s'. input_curl_seek refused_stream 100 SEEK_SET = Inr (False, s') \<and>
      is_offset s' = 100 \<and> c_rewind (is_data s') = [] \<and>
      queued (is_data s') = delivered refused_stream s' \<and>
      delivered refused_stream s' = ''xy'' \<and>
      m_starts (multi_of s') = Suc (m_starts (multi_of refused_stream)))"
proof -
  have h1: "is_seekable refused_stream"
    and h2: "seek_target refused_stream 100 SEEK_SET = Some 100"
    and h3: "(0::int) \<le> 100"
    and h4: "\<not> (SEEK_SET = SEEK_SET \<and> (100::int) = 0 \<and>
                (is_offset refused_stream = 0 \<or> input_curl_can_rewind refused_stream))"
    and h7: "100 \<noteq> is_size refused_stream"
    by code_simp+
  have "case fast_forward 100 refused_stream of Inr s1 \<Rightarrow> is_offset s1 = 4 | Inl e \<Rightarrow> False"
    by code_simp
  then obtain s1 where h5: "fast_forward 100 refused_stream = Inr s1" and o1: "is_offset s1 = 4"
    by (auto split: sum.splits)
  have h6: "is_offset s1 \<noteq> 100"
    using o1 by simp
  have "case input_curl_seek refused_stream 100 SEEK_SET of
          Inr (ok, s') \<Rightarrow> ok = False \<and> delivered refused_stream s' = ''xy'' | Inl e \<Rightarrow> False"
    by code_simp
  then obtain s' where h8: "input_curl_seek refused_stream 100 SEEK_SET = Inr (False, s')"
    and d: "delivered refused_stream s' = ''xy''"
    by (auto split: sum.splits)
  show ?thesis
    using h1 h2 h5 o1 h8 d seek_reconnect_failure [OF h1 h2 h3 h4 h5 h6 h7 h8] by blast
qed

end
